theory Spec2Isabelle
  imports Main
begin

section \<open>Text, characters and the string primitives of the source\<close>

text \<open>
  The program is Python and works on \<open>str\<close> values, sequences of Unicode code points.
  A character is modelled by its code point, a text by the list of its code points, so
  that the byte-order mark U+FEFF and the whitespace beyond Latin-1 exist in the model.
  \<open>str\<close> turns an ASCII literal into such a text. The characters the source names
  are abbreviations of their code points.
\<close>

type_synonym ustring = "nat list"

definition str :: "string \<Rightarrow> ustring" where
  "str s = map of_char s"

abbreviation (input) c_tab :: nat where "c_tab \<equiv> 9"
abbreviation (input) c_nl :: nat where "c_nl \<equiv> 10"
abbreviation (input) c_cr :: nat where "c_cr \<equiv> 13"
abbreviation (input) c_space :: nat where "c_space \<equiv> 32"
abbreviation (input) c_dquote :: nat where "c_dquote \<equiv> 34"
abbreviation (input) c_hash :: nat where "c_hash \<equiv> 35"
abbreviation (input) c_squote :: nat where "c_squote \<equiv> 39"
abbreviation (input) c_star :: nat where "c_star \<equiv> 42"
abbreviation (input) c_dash :: nat where "c_dash \<equiv> 45"
abbreviation (input) c_slash :: nat where "c_slash \<equiv> 47"
abbreviation (input) c_bslash :: nat where "c_bslash \<equiv> 92"
abbreviation (input) c_btick :: nat where "c_btick \<equiv> 96"
abbreviation (input) c_bom :: nat where "c_bom \<equiv> 65279"

text \<open>
  The characters that \<open>str.strip()\<close> and \<open>str.rstrip()\<close> remove when called without an
  argument: those for which \<open>str.isspace\<close> holds.
\<close>

definition is_space :: "nat \<Rightarrow> bool" where
  "is_space c \<longleftrightarrow>
     (9 \<le> c \<and> c \<le> 13) \<or> (28 \<le> c \<and> c \<le> 32) \<or> c = 133 \<or> c = 160 \<or> c = 5760 \<or>
     (8192 \<le> c \<and> c \<le> 8202) \<or> c = 8232 \<or> c = 8233 \<or> c = 8239 \<or> c = 8287 \<or> c = 12288"

definition lstrip :: "ustring \<Rightarrow> ustring" where
  "lstrip s = dropWhile is_space s"

definition rstrip :: "ustring \<Rightarrow> ustring" where
  "rstrip s = rev (dropWhile is_space (rev s))"

definition strip :: "ustring \<Rightarrow> ustring" where
  "strip s = lstrip (rstrip s)"

text \<open>The slice \<open>text[a:b]\<close> for \<open>0 \<le> a\<close> and \<open>0 \<le> b\<close>.\<close>

definition slice :: "ustring \<Rightarrow> nat \<Rightarrow> nat \<Rightarrow> ustring" where
  "slice s a b = take (b - a) (drop a s)"

text \<open>
  \<open>match_at s sub i\<close>: \<open>sub\<close> occurs in \<open>s\<close> at index \<open>i\<close>.
  \<open>rfind s sub a b\<close> is \<open>s.rfind(sub, a, b)\<close> for non-negative bounds: the highest index
  at which \<open>sub\<close> occurs wholly inside \<open>s[a:b]\<close>; \<open>None\<close> stands for Python's \<open>-1\<close>.
\<close>

definition match_at :: "ustring \<Rightarrow> ustring \<Rightarrow> nat \<Rightarrow> bool" where
  "match_at s sub i \<longleftrightarrow> take (length sub) (drop i s) = sub"

definition rfind :: "ustring \<Rightarrow> ustring \<Rightarrow> nat \<Rightarrow> nat \<Rightarrow> nat option" where
  "rfind s sub a b =
     (let e = min b (length s) in
      if a + length sub \<le> e
      then List.find (match_at s sub) (rev [a ..< Suc (e - length sub)])
      else None)"

section \<open>The chunk splitter: \<open>chunk_text\<close>\<close>

definition file_marker :: ustring where
  "file_marker = c_nl # str ''===== FILE:''"

definition blank_line :: ustring where
  "blank_line = [c_nl, c_nl]"

text \<open>
  One iteration of the \<open>while\<close> loop computes the end of the current slice:
  \<open>min(start + max_chunk_chars, len(text))\<close>, moved back to a split position when the
  slice does not reach the end of the text.
\<close>

definition next_end :: "ustring \<Rightarrow> nat \<Rightarrow> nat \<Rightarrow> nat" where
  "next_end s m start =
     (let e = min (start + m) (length s) in
      if e < length s then
        (case rfind s file_marker start e of
           Some p \<Rightarrow>
             if p \<le> start then
               (case rfind s blank_line start e of
                  Some q \<Rightarrow> if q \<le> start then e else q
                | None \<Rightarrow> e)
             else p
         | None \<Rightarrow>
             (case rfind s blank_line start e of
                Some q \<Rightarrow> if q \<le> start then e else q
              | None \<Rightarrow> e))
      else e)"

text \<open>
  The loop itself. Nothing in its text bounds the number of iterations, so it is a
  partial function: \<open>None\<close> is a run that never returns.
\<close>

partial_function (option) chunk_loop :: "ustring \<Rightarrow> nat \<Rightarrow> nat \<Rightarrow> ustring list \<Rightarrow> ustring list option" where
  "chunk_loop s m start chunks =
     (if start < length s then
        (let e = next_end s m start;
             chunk = strip (slice s start e);
             chunks' = (if chunk \<noteq> [] then chunks @ [chunk @ [c_nl]] else chunks)
         in chunk_loop s m e chunks')
      else Some chunks)"

declare chunk_loop.simps [code]

text \<open>
  \<open>max_chunk_chars\<close> is a Python \<open>int\<close>; the loop is entered only after the guard has
  established that it is positive, so the loop takes it as a natural number.
\<close>

definition chunk_text :: "ustring \<Rightarrow> int \<Rightarrow> ustring list option" where
  "chunk_text s max_chunk_chars =
     (if max_chunk_chars \<le> 0 \<or> int (length s) \<le> max_chunk_chars
      then Some (if s \<noteq> [] then [s] else [])
      else chunk_loop s (nat max_chunk_chars) 0 [])"


definition divides_line :: "ustring \<Rightarrow> nat \<Rightarrow> bool" where
  "divides_line s c \<longleftrightarrow> 0 < c \<and> c < length s \<and> s ! (c - 1) \<noteq> c_nl \<and> s ! c \<noteq> c_nl"


text \<open>
  The priority rule in the words of the specification. \<open>split_points s sub start e\<close>
  lists, in ascending order, the legal split points for \<open>sub\<close> in the window from
  \<open>start\<close> to \<open>e\<close>: the positions strictly after \<open>start\<close> at which \<open>sub\<close> occurs and
  ends inside the window. \<open>priority_cut s m start\<close> is the cut of the window of \<open>m\<close>
  characters at \<open>start\<close>: the most recent boundary marker within the budget, else the
  most recent blank line within the budget, else the budget itself.
\<close>

definition split_points :: "ustring \<Rightarrow> ustring \<Rightarrow> nat \<Rightarrow> nat \<Rightarrow> nat list" where
  "split_points s sub start e =
     filter (\<lambda>p. p + length sub \<le> e \<and> match_at s sub p) [Suc start ..< e]"

definition priority_cut :: "ustring \<Rightarrow> nat \<Rightarrow> nat \<Rightarrow> nat" where
  "priority_cut s m start =
     (let e = start + m in
      if split_points s file_marker start e \<noteq> [] then last (split_points s file_marker start e)
      else if split_points s blank_line start e \<noteq> [] then last (split_points s blank_line start e)
      else e)"




definition needle_doc :: ustring where
  "needle_doc = str ''abcdefgh'' @ [c_nl] @ str ''===== FILE: x ====='' @ [c_nl, c_nl] @ str ''zz''"

definition demo_unit :: ustring where
  "demo_unit = str ''===== FILE: a ====='' @ [c_nl, c_nl] @ str ''0123456789abcdefghij'' @ [c_nl]"

section \<open>The comment scanners\<close>

text \<open>
  Every scanner keeps its automaton in local variables; \<open>scan_state\<close> holds them. The
  C-like scanner uses all six, the SQL scanner \<open>in_block\<close>, \<open>in_str\<close>, \<open>escape\<close> and
  \<open>quote\<close>, the per-line scanners \<open>in_str\<close>, \<open>escape\<close> and \<open>quote\<close>. \<open>quote\<close> is a
  Python string: empty at first, later the one character that opened the literal.
\<close>

record scan_state =
  in_line :: bool
  in_block :: bool
  in_str :: bool
  in_char :: bool
  escape :: bool
  quote :: ustring

definition init_state :: scan_state where
  "init_state = \<lparr>in_line = False, in_block = False, in_str = False, in_char = False,
     escape = False, quote = []\<rparr>"

text \<open>
  \<open>peek rest\<close> is \<open>nxt = text[i + 1] if i + 1 < n else ""\<close>, with \<open>None\<close> for the empty
  string; \<open>emit ch r\<close> is \<open>out.append(ch)\<close> in front of what the rest of the loop
  appends.
\<close>

definition peek :: "ustring \<Rightarrow> nat option" where
  "peek rest = (case rest of [] \<Rightarrow> None | x # _ \<Rightarrow> Some x)"

definition emit :: "nat \<Rightarrow> ustring \<times> scan_state \<Rightarrow> ustring \<times> scan_state" where
  "emit ch r = (ch # fst r, snd r)"

subsection \<open>\<open>strip_c_like_comments\<close>\<close>

text \<open>
  The \<open>while\<close> loop, from the state \<open>st\<close> on the text that is left; it returns the
  characters appended to \<open>out\<close> and the state in which the loop ends.
\<close>

fun c_like_loop :: "scan_state \<Rightarrow> ustring \<Rightarrow> ustring \<times> scan_state" where
  "c_like_loop st [] = ([], st)"
| "c_like_loop st (ch # rest) =
     (let nxt = peek rest in
      if in_line st then
        (if ch = c_nl then emit ch (c_like_loop (st\<lparr>in_line := False\<rparr>) rest)
         else c_like_loop st rest)
      else if in_block st then
        (if ch = c_star \<and> nxt = Some c_slash
         then c_like_loop (st\<lparr>in_block := False\<rparr>) (tl rest)
         else c_like_loop st rest)
      else if in_str st \<or> in_char st then
        emit ch (c_like_loop
          (if escape st then st\<lparr>escape := False\<rparr>
           else if ch = c_bslash then st\<lparr>escape := True\<rparr>
           else if in_str st \<and> [ch] = quote st then st\<lparr>in_str := False\<rparr>
           else if in_char st \<and> ch = c_squote then st\<lparr>in_char := False\<rparr>
           else st) rest)
      else if ch = c_slash \<and> nxt = Some c_slash
        then c_like_loop (st\<lparr>in_line := True\<rparr>) (tl rest)
      else if ch = c_slash \<and> nxt = Some c_star
        then c_like_loop (st\<lparr>in_block := True\<rparr>) (tl rest)
      else if ch = c_dquote \<or> ch = c_btick
        then emit ch (c_like_loop (st\<lparr>in_str := True, quote := [ch]\<rparr>) rest)
      else if ch = c_squote
        then emit ch (c_like_loop (st\<lparr>in_char := True\<rparr>) rest)
      else emit ch (c_like_loop st rest))"

definition strip_c_like_comments :: "ustring \<Rightarrow> ustring" where
  "strip_c_like_comments text = fst (c_like_loop init_state text)"

subsection \<open>\<open>strip_sql_comments\<close>\<close>

text \<open>
  The inner loop of the \<open>--\<close> branch skips to the next newline without consuming it; the
  dash it starts on is no newline, so the skip is written from the character after it.
\<close>

function sql_loop :: "scan_state \<Rightarrow> ustring \<Rightarrow> ustring \<times> scan_state" where
  "sql_loop st [] = ([], st)"
| "sql_loop st (ch # rest) =
     (let nxt = peek rest in
      if in_block st then
        (if ch = c_star \<and> nxt = Some c_slash
         then sql_loop (st\<lparr>in_block := False\<rparr>) (tl rest)
         else sql_loop st rest)
      else if in_str st then
        emit ch (sql_loop
          (if escape st then st\<lparr>escape := False\<rparr>
           else if ch = c_bslash then st\<lparr>escape := True\<rparr>
           else if [ch] = quote st then st\<lparr>in_str := False\<rparr>
           else st) rest)
      else if ch = c_squote \<or> ch = c_dquote
        then emit ch (sql_loop (st\<lparr>in_str := True, quote := [ch]\<rparr>) rest)
      else if ch = c_slash \<and> nxt = Some c_star
        then sql_loop (st\<lparr>in_block := True\<rparr>) (tl rest)
      else if ch = c_dash \<and> nxt = Some c_dash
        then sql_loop st (dropWhile (\<lambda>c. c \<noteq> c_nl) rest)
      else emit ch (sql_loop st rest))"
  by pat_completeness auto
termination
  by (relation "measure (\<lambda>(st, s). length s)")
     (auto simp: less_Suc_eq_le length_dropWhile_le intro: le_trans[OF length_dropWhile_le])

definition strip_sql_comments :: "ustring \<Rightarrow> ustring" where
  "strip_sql_comments text = fst (sql_loop init_state text)"

subsection \<open>Lines: \<open>replace\<close>, \<open>split\<close>, \<open>join\<close>, \<open>find\<close>\<close>

text \<open>
  \<open>replace old new s\<close> is \<open>s.replace(old, new)\<close> for a non-empty \<open>old\<close>: the occurrences
  are replaced from left to right, without overlap. The source never calls it with an
  empty \<open>old\<close>; the model returns the text unchanged there.
\<close>

fun replace :: "ustring \<Rightarrow> ustring \<Rightarrow> ustring \<Rightarrow> ustring" where
  "replace [] new s = s"
| "replace (a # as) new [] = []"
| "replace (a # as) new (c # cs) =
     (if take (Suc (length as)) (c # cs) = a # as
      then new @ replace (a # as) new (drop (length as) cs)
      else c # replace (a # as) new cs)"

text \<open>\<open>split_nl s\<close> is \<open>s.split("\n")\<close> and \<open>join_nl ls\<close> is \<open>"\n".join(ls)\<close>.\<close>

fun split_nl :: "ustring \<Rightarrow> ustring list" where
  "split_nl [] = [[]]"
| "split_nl (c # cs) =
     (if c = c_nl then [] # split_nl cs
      else (case split_nl cs of l # ls \<Rightarrow> (c # l) # ls | [] \<Rightarrow> [[c]]))"

fun join_nl :: "ustring list \<Rightarrow> ustring" where
  "join_nl [] = []"
| "join_nl [l] = l"
| "join_nl (l # ls) = l @ c_nl # join_nl ls"

text \<open>
  \<open>str_find sub s\<close> is \<open>s.find(sub)\<close>: the lowest index at which \<open>sub\<close> occurs, \<open>None\<close>
  for \<open>-1\<close>.
\<close>

fun str_find :: "ustring \<Rightarrow> ustring \<Rightarrow> nat option" where
  "str_find sub [] = (if sub = [] then Some 0 else None)"
| "str_find sub (c # cs) =
     (if take (length sub) (c # cs) = sub then Some 0
      else map_option Suc (str_find sub cs))"

definition unix_newlines :: "ustring \<Rightarrow> ustring" where
  "unix_newlines text = replace [c_cr] [c_nl] (replace [c_cr, c_nl] [c_nl] text)"

subsection \<open>\<open>strip_hash_line_comments\<close>\<close>

text \<open>
  The inner loop over one line: it returns \<open>buf\<close> and the state in which it ends; the
  \<open>break\<close> at a \<open>#\<close> outside a string ends it at once.
\<close>

fun hash_loop :: "scan_state \<Rightarrow> ustring \<Rightarrow> ustring \<times> scan_state" where
  "hash_loop st [] = ([], st)"
| "hash_loop st (ch # rest) =
     (if in_str st then
        emit ch (hash_loop
          (if escape st then st\<lparr>escape := False\<rparr>
           else if ch = c_bslash then st\<lparr>escape := True\<rparr>
           else if [ch] = quote st then st\<lparr>in_str := False\<rparr>
           else st) rest)
      else if ch = c_squote \<or> ch = c_dquote
        then emit ch (hash_loop (st\<lparr>in_str := True, quote := [ch]\<rparr>) rest)
      else if ch = c_hash then ([], st)
      else emit ch (hash_loop st rest))"

definition strip_hash_line_comments :: "ustring \<Rightarrow> ustring" where
  "strip_hash_line_comments text =
     join_nl (map (\<lambda>line. fst (hash_loop init_state line)) (split_nl (unix_newlines text)))"

subsection \<open>\<open>strip_python_comments\<close>\<close>

text \<open>The inner loop over one line, written out a second time in the source.\<close>

fun py_loop :: "scan_state \<Rightarrow> ustring \<Rightarrow> ustring \<times> scan_state" where
  "py_loop st [] = ([], st)"
| "py_loop st (ch # rest) =
     (if in_str st then
        emit ch (py_loop
          (if escape st then st\<lparr>escape := False\<rparr>
           else if ch = c_bslash then st\<lparr>escape := True\<rparr>
           else if [ch] = quote st then st\<lparr>in_str := False\<rparr>
           else st) rest)
      else if ch = c_squote \<or> ch = c_dquote
        then emit ch (py_loop (st\<lparr>in_str := True, quote := [ch]\<rparr>) rest)
      else if ch = c_hash then ([], st)
      else emit ch (py_loop st rest))"

definition triple_squote :: ustring where
  "triple_squote = [c_squote, c_squote, c_squote]"

definition triple_dquote :: ustring where
  "triple_dquote = [c_dquote, c_dquote, c_dquote]"

text \<open>
  The \<open>for q in ("'''", '"""')\<close> loop: at the first of the two delimiters that occurs in
  the line, the line is cut in front of it and the scanner enters the triple-quoted
  region. It returns \<open>(in_triple, triple_quote, line)\<close>.
\<close>

definition open_triple :: "bool \<times> ustring \<Rightarrow> ustring \<Rightarrow> bool \<times> ustring \<times> ustring" where
  "open_triple tr line =
     (case str_find triple_squote line of
        Some idx \<Rightarrow> (True, triple_squote, take idx line)
      | None \<Rightarrow>
          (case str_find triple_dquote line of
             Some idx \<Rightarrow> (True, triple_dquote, take idx line)
           | None \<Rightarrow> (fst tr, snd tr, line)))"

text \<open>
  The loop over the lines, from the pair \<open>(in_triple, triple_quote)\<close>; it returns
  \<open>out_lines\<close>. A line inside a triple-quoted region that does not close it is skipped
  (\<open>continue\<close>) and gives no output line.
\<close>

fun py_lines :: "bool \<Rightarrow> bool \<times> ustring \<Rightarrow> ustring list \<Rightarrow> ustring list" where
  "py_lines strip_docstrings tr [] = []"
| "py_lines strip_docstrings tr (line # rest) =
     (if strip_docstrings then
        (if fst tr then
           (case str_find (snd tr) line of
              Some end_idx \<Rightarrow>
                (case open_triple (False, snd tr) (drop (end_idx + 3) line) of
                   (in_triple, triple_quote, line') \<Rightarrow>
                     fst (py_loop init_state line') #
                       py_lines strip_docstrings (in_triple, triple_quote) rest)
            | None \<Rightarrow> py_lines strip_docstrings tr rest)
         else
           (case open_triple tr line of
              (in_triple, triple_quote, line') \<Rightarrow>
                fst (py_loop init_state line') #
                  py_lines strip_docstrings (in_triple, triple_quote) rest))
      else fst (py_loop init_state line) # py_lines strip_docstrings tr rest)"

definition strip_python_comments :: "ustring \<Rightarrow> bool \<Rightarrow> ustring" where
  "strip_python_comments text strip_docstrings =
     join_nl (py_lines strip_docstrings (False, []) (split_nl (unix_newlines text)))"

subsection \<open>\<open>strip_html_comments\<close>\<close>

text \<open>
  \<open>re.sub(r"<!--.*?-->", "", text, flags=re.DOTALL)\<close>: from left to right, where the
  text reads \<open><!--\<close> and a \<open>-->\<close> follows, everything up to the end of the first such
  \<open>-->\<close> is removed; any other character is kept.
\<close>

definition html_open :: ustring where
  "html_open = str ''<!--''"

definition html_close :: ustring where
  "html_close = str ''-->''"

function strip_html_comments :: "ustring \<Rightarrow> ustring" where
  "strip_html_comments [] = []"
| "strip_html_comments (c # cs) =
     (if match_at (c # cs) html_open 0 then
        (case str_find html_close (drop 4 (c # cs)) of
           Some k \<Rightarrow> strip_html_comments (drop (4 + k + 3) (c # cs))
         | None \<Rightarrow> c # strip_html_comments cs)
      else c # strip_html_comments cs)"
  by pat_completeness auto
termination
  by (relation "measure length") auto

section \<open>The vocabulary of the specification for the scanners\<close>

text \<open>
  \<open>body_end q esc body\<close> reads the body of a literal opened by the quote \<open>q\<close>, from
  the escape flag \<open>esc\<close>: a backslash escapes the character after it. It is \<open>None\<close>
  when the body holds an unescaped \<open>q\<close>, which would close the literal early, and
  otherwise the escape flag at the end of the body.

  \<open>literal_body q body\<close>: \<open>q\<close> followed by \<open>body\<close> and \<open>q\<close> is one literal, closed by its
  last character. \<open>unterminated_body q body\<close>: \<open>q\<close> followed by \<open>body\<close> is a literal that
  the text does not close.
\<close>

fun body_end :: "nat \<Rightarrow> bool \<Rightarrow> ustring \<Rightarrow> bool option" where
  "body_end q esc [] = Some esc"
| "body_end q esc (c # cs) =
     (if esc then body_end q False cs
      else if c = c_bslash then body_end q True cs
      else if c = q then None
      else body_end q False cs)"

definition literal_body :: "nat \<Rightarrow> ustring \<Rightarrow> bool" where
  "literal_body q body \<longleftrightarrow> body_end q False body = Some False"

definition unterminated_body :: "nat \<Rightarrow> ustring \<Rightarrow> bool" where
  "unterminated_body q body \<longleftrightarrow> body_end q False body \<noteq> None"

text \<open>The state of a scanner outside every comment and literal.\<close>

definition normal_mode :: "scan_state \<Rightarrow> bool" where
  "normal_mode st \<longleftrightarrow>
     \<not> in_line st \<and> \<not> in_block st \<and> \<not> in_str st \<and> \<not> in_char st \<and> \<not> escape st"

text \<open>The end of a block comment, \<open>*/\<close>.\<close>

definition block_close :: ustring where
  "block_close = [c_star, c_slash]"

text \<open>The state inside a double-quoted string, no escape pending.\<close>

definition in_dquote :: scan_state where
  "in_dquote = init_state\<lparr>in_str := True, quote := [c_dquote]\<rparr>"

section \<open>The whitespace normaliser: \<open>normalise_whitespace\<close>\<close>

text \<open>
  \<open>expandtabs tab_spaces col s\<close> is \<open>s.expandtabs(tab_spaces)\<close>, started in column
  \<open>col\<close>: a tab becomes the spaces that lead to the next multiple of a positive tab
  size and nothing otherwise; a newline or a carriage return resets the column.
\<close>

fun expandtabs :: "int \<Rightarrow> nat \<Rightarrow> ustring \<Rightarrow> ustring" where
  "expandtabs tabsize col [] = []"
| "expandtabs tabsize col (c # cs) =
     (if c = c_tab then
        (if 0 < tabsize then
           (let incr = nat tabsize - col mod nat tabsize
            in replicate incr c_space @ expandtabs tabsize (col + incr) cs)
         else expandtabs tabsize col cs)
      else c # expandtabs tabsize (if c = c_nl \<or> c = c_cr then 0 else col + 1) cs)"

text \<open>The loop that collapses runs of blank lines, from the counter \<open>blank_run\<close>.\<close>

fun collapse :: "int \<Rightarrow> int \<Rightarrow> ustring list \<Rightarrow> ustring list" where
  "collapse collapse_blank_to blank_run [] = []"
| "collapse collapse_blank_to blank_run (ln # lns) =
     (if ln = [] then
        (if blank_run + 1 \<le> collapse_blank_to
         then [] # collapse collapse_blank_to (blank_run + 1) lns
         else collapse collapse_blank_to (blank_run + 1) lns)
      else ln # collapse collapse_blank_to 0 lns)"

definition normalise_whitespace :: "ustring \<Rightarrow> int \<Rightarrow> int \<Rightarrow> ustring" where
  "normalise_whitespace text tab_spaces collapse_blank_to =
     (let text1 = replace [c_bom] [] text;
          text2 = replace [c_cr] [c_nl] (replace [c_cr, c_nl] [c_nl] text1);
          text3 = expandtabs tab_spaces 0 text2;
          lines = map rstrip (split_nl text3);
          collapsed = collapse collapse_blank_to 0 lines;
          out = strip (join_nl collapsed)
      in if out \<noteq> [] then out @ [c_nl] else [])"

section \<open>Auxiliary notions of the proofs\<close>

text \<open>
  \<open>no_mode\<close>: the four mode flags are clear. \<open>leave_comment\<close> clears the two comment
  flags: the state in which a second pass meets what the first pass emits.
\<close>

definition no_mode :: "scan_state \<Rightarrow> bool" where
  "no_mode st \<longleftrightarrow> \<not> in_line st \<and> \<not> in_block st \<and> \<not> in_str st \<and> \<not> in_char st"

definition leave_comment :: "scan_state \<Rightarrow> scan_state" where
  "leave_comment st = st\<lparr>in_line := False, in_block := False\<rparr>"

text \<open>
  \<open>trim_lines\<close> is \<open>strip\<close> seen on the lines of a text: the blank lines at both ends go,
  and the first line that stays loses its leading whitespace.
\<close>

definition trim_lines :: "ustring list \<Rightarrow> ustring list" where
  "trim_lines K =
     (case dropWhile (\<lambda>l. l = []) (rev (dropWhile (\<lambda>l. l = []) (rev K))) of
        [] \<Rightarrow> []
      | k # ks \<Rightarrow> lstrip k # ks)"

section \<open>Facts about the string primitives\<close>

lemma rfind_SomeD:
  assumes "rfind s sub a b = Some p"
  shows "a \<le> p" and "p + length sub \<le> min b (length s)" and "match_at s sub p"
    and "\<And>q. p < q \<Longrightarrow> q + length sub \<le> min b (length s) \<Longrightarrow> \<not> match_at s sub q"
proof -
  define e where "e = min b (length s)"
  define xs where "xs = rev [a ..< Suc (e - length sub)]"
  from assms have fit: "a + length sub \<le> e" and f: "List.find (match_at s sub) xs = Some p"
    by (auto simp: rfind_def e_def xs_def Let_def split: if_splits)
  from f obtain i where i: "i < length xs" "match_at s sub (xs ! i)" "p = xs ! i"
    "\<forall>j<i. \<not> match_at s sub (xs ! j)"
    by (auto simp: find_Some_iff)
  have len: "length xs = Suc (e - length sub) - a" using fit by (simp add: xs_def del: upt_Suc)
  have nth: "\<And>j. j < length xs \<Longrightarrow> xs ! j = e - length sub - j"
    using fit by (simp add: xs_def rev_nth del: upt_Suc)
  have p: "p = e - length sub - i" using i nth by simp
  show "a \<le> p" using p i(1) len fit by arith
  show "p + length sub \<le> min b (length s)" using p fit unfolding e_def by arith
  show "match_at s sub p" using i by simp
  fix q assume q: "p < q" "q + length sub \<le> min b (length s)"
  define j where "j = e - length sub - q"
  have ji: "j < i" using q p i(1) len fit unfolding j_def e_def by arith
  then have "j < length xs" using i(1) by simp
  from nth[OF this] have "xs ! j = q" using q fit unfolding j_def e_def by arith
  with ji show "\<not> match_at s sub q" using i(4) by auto
qed


lemma lstrip_append_nonspace: "lstrip s = [] \<or> \<not> is_space (hd (lstrip s))"
  unfolding lstrip_def using hd_dropWhile[of is_space s] by blast

lemma rstrip_last: "rstrip s = [] \<or> \<not> is_space (last (rstrip s))"
  unfolding rstrip_def using hd_dropWhile[of is_space "rev s"]
  by (auto simp: last_rev)

lemma lstrip_id: "s = [] \<or> \<not> is_space (hd s) \<Longrightarrow> lstrip s = s"
  unfolding lstrip_def by (cases s) auto

lemma rstrip_id: "s = [] \<or> \<not> is_space (last s) \<Longrightarrow> rstrip s = s"
  unfolding rstrip_def by (cases s rule: rev_cases) auto

lemma lstrip_suffix: "\<exists>ws. s = ws @ lstrip s \<and> (\<forall>c \<in> set ws. is_space c)"
  unfolding lstrip_def
  by (rule exI[of _ "takeWhile is_space s"]) (auto dest: set_takeWhileD)

lemma rstrip_prefix: "\<exists>ws. s = rstrip s @ ws \<and> (\<forall>c \<in> set ws. is_space c)"
proof -
  have "rev s = takeWhile is_space (rev s) @ dropWhile is_space (rev s)" by simp
  then have "s = rev (dropWhile is_space (rev s)) @ rev (takeWhile is_space (rev s))"
    by (metis rev_append rev_rev_ident)
  then show ?thesis unfolding rstrip_def
    by (intro exI[of _ "rev (takeWhile is_space (rev s))"]) (auto dest: set_takeWhileD)
qed

lemma lstrip_last: "lstrip s \<noteq> [] \<Longrightarrow> last (lstrip s) = last s"
  using lstrip_suffix[of s] by (metis last_appendR)

lemma strip_ends: "strip s = [] \<or> (\<not> is_space (hd (strip s)) \<and> \<not> is_space (last (strip s)))"
  unfolding strip_def
  using lstrip_append_nonspace[of "rstrip s"] rstrip_last[of s] lstrip_last[of "rstrip s"]
  by (metis lstrip_def dropWhile.simps(1))

lemma strip_id: "s = [] \<or> (\<not> is_space (hd s) \<and> \<not> is_space (last s)) \<Longrightarrow> strip s = s"
  unfolding strip_def by (auto simp: rstrip_id lstrip_id)

lemma strip_strip: "strip (strip s) = strip s"
  using strip_ends[of s] by (auto intro: strip_id)

lemma length_strip: "length (strip s) \<le> length s"
  unfolding strip_def lstrip_def rstrip_def
  by (metis length_dropWhile_le length_rev le_trans)

lemma strip_emit: "b \<noteq> [] \<Longrightarrow> strip b = b \<Longrightarrow> strip (b @ [c_nl]) = b"
proof -
  assume b: "b \<noteq> []" "strip b = b"
  with strip_ends[of b] have e: "\<not> is_space (hd b)" "\<not> is_space (last b)" by auto
  have "rstrip (b @ [c_nl]) = rstrip b"
    unfolding rstrip_def by (simp add: is_space_def)
  then show ?thesis unfolding strip_def using b e by (simp add: rstrip_id lstrip_id)
qed

section \<open>The chunk splitter: progress, termination, split points and chunks\<close>

lemma next_end_bounds:
  assumes "0 < m" and "start < length s"
  shows "start < next_end s m start" and "next_end s m start \<le> length s"
    and "next_end s m start \<le> start + m"
proof -
  define e where "e = min (start + m) (length s)"
  have e: "start < e" "e \<le> length s" "e \<le> start + m" using assms by (auto simp: e_def)
  have R: "\<And>sub p. rfind s sub start e = Some p \<Longrightarrow> p \<le> e"
    using rfind_SomeD(2) by fastforce
  have "start < next_end s m start \<and> next_end s m start \<le> e"
    using e R[of file_marker] R[of blank_line]
    by (auto simp: next_end_def Let_def e_def[symmetric] split: option.splits)
  then show "start < next_end s m start" and "next_end s m start \<le> length s"
    and "next_end s m start \<le> start + m"
    using e by auto
qed

lemma chunk_loop_total:
  assumes "0 < m"
  shows "\<exists>cs. chunk_loop s m start chunks = Some cs"
proof (induction "length s - start" arbitrary: start chunks rule: less_induct)
  case less
  show ?case
  proof (cases "start < length s")
    case False
    then show ?thesis by (subst chunk_loop.simps) simp
  next
    case True
    from next_end_bounds[OF assms True]
    have "length s - next_end s m start < length s - start" by linarith
    from less[OF this] show ?thesis
      using True by (subst chunk_loop.simps) (simp add: Let_def)
  qed
qed

text \<open>
  C10: a budget that is zero or negative, or one that the text fits into, takes the
  early return: the text comes back as the only chunk, untouched, and an empty text
  gives no chunk.
\<close>

theorem chunk_text_fast_path:
  "max_chunk_chars \<le> 0 \<or> int (length s) \<le> max_chunk_chars \<Longrightarrow>
     chunk_text s max_chunk_chars = Some (if s = [] then [] else [s])"
  by (auto simp: chunk_text_def)

theorem chunk_text_fast_path_witness:
  "((-3::int) \<le> 0 \<or> int (length (str '' a '')) \<le> -3) \<and>
   chunk_text (str '' a '') (-3) = Some [str '' a ''] \<and>
   chunk_text [] 0 = Some [] \<and>
   chunk_text (str ''ab'') 2 = Some [str ''ab'']"
  using chunk_text_fast_path[of "-3" "str '' a ''"] chunk_text_fast_path[of 0 "[]"]
    chunk_text_fast_path[of 2 "str ''ab''"]
  by (simp add: str_def)

text \<open>
  C9: for a positive budget the splitter returns, and in every iteration of its loop
  the scan position moves strictly forward (and stays inside the text), whether or not
  a marker or a blank line is found in the window.
\<close>

theorem chunk_text_terminates:
  "0 < max_chunk_chars \<Longrightarrow>
     (\<exists>cs. chunk_text s max_chunk_chars = Some cs) \<and>
     (\<forall>start < length s.
        start < next_end s (nat max_chunk_chars) start \<and>
        next_end s (nat max_chunk_chars) start \<le> length s)"
  using chunk_loop_total[of "nat max_chunk_chars" s 0 "[]"]
    next_end_bounds[of "nat max_chunk_chars" _ s]
  by (auto simp: chunk_text_def)

theorem chunk_text_terminates_witness:
  "(0::int) < 3 \<and> (\<exists>cs. chunk_text (str ''abcdefg'') 3 = Some cs) \<and>
   2 < next_end (str ''abcdefg'') (nat 3) 2 \<and>
   next_end (str ''abcdefg'') (nat 3) 2 \<le> length (str ''abcdefg'')"
proof -
  have h: "(0::int) < 3" and l: "2 < length (str ''abcdefg'')" by (simp_all add: str_def)
  from chunk_text_terminates[OF h, of "str ''abcdefg''"] h l show ?thesis by blast
qed

lemma slice_next:
  assumes "start \<le> e" "e \<le> length s"
  shows "drop start s = slice s start e @ drop e s"
proof -
  have "drop (e - start) (drop start s) = drop e s" using assms by simp
  then show ?thesis
    unfolding slice_def by (metis append_take_drop_id)
qed

lemma chunk_loop_segments:
  assumes "0 < m"
  shows "\<exists>segs. concat segs = drop start s \<and> (\<forall>g \<in> set segs. g \<noteq> [] \<and> length g \<le> m) \<and>
           chunk_loop s m start chunks =
             Some (chunks @ map (\<lambda>g. strip g @ [c_nl]) (filter (\<lambda>g. strip g \<noteq> []) segs))"
proof (induction "length s - start" arbitrary: start chunks rule: less_induct)
  case less
  show ?case
  proof (cases "start < length s")
    case False
    then have "chunk_loop s m start chunks = Some chunks" by (subst chunk_loop.simps) simp
    with False show ?thesis by (intro exI[of _ "[]"]) simp
  next
    case True
    define e where "e = next_end s m start"
    define g where "g = slice s start e"
    define chunks' where "chunks' = (if strip g \<noteq> [] then chunks @ [strip g @ [c_nl]] else chunks)"
    from next_end_bounds[OF assms True]
    have b: "start < e" "e \<le> length s" "e \<le> start + m" by (simp_all add: e_def)
    then have "length s - e < length s - start" using True by linarith
    from less[OF this, of chunks'] obtain segs where
      segs: "concat segs = drop e s" "\<forall>g \<in> set segs. g \<noteq> [] \<and> length g \<le> m"
      "chunk_loop s m e chunks' = Some (chunks' @ map (\<lambda>g. strip g @ [c_nl]) (filter (\<lambda>g. strip g \<noteq> []) segs))"
      by blast
    have glen: "length g = e - start" using b by (simp add: g_def slice_def)
    have step: "chunk_loop s m start chunks = chunk_loop s m e chunks'"
      using True by (subst chunk_loop.simps) (simp add: Let_def e_def g_def chunks'_def)
    have cat: "concat (g # segs) = drop start s"
      using slice_next[of start e s] b segs(1) by (simp add: g_def)
    have "\<forall>x \<in> set (g # segs). x \<noteq> [] \<and> length x \<le> m"
      using segs(2) glen b by auto
    moreover have "chunk_loop s m start chunks =
       Some (chunks @ map (\<lambda>g. strip g @ [c_nl]) (filter (\<lambda>g. strip g \<noteq> []) (g # segs)))"
      using step segs(3) by (simp add: chunks'_def)
    ultimately show ?thesis using cat by blast
  qed
qed





lemmas chunk_eval = chunk_text_def chunk_loop.simps next_end_def rfind_def match_at_def str_def
  file_marker_def blank_line_def strip_def lstrip_def rstrip_def slice_def is_space_def Let_def











lemmas cut_eval = split_points_def priority_cut_def divides_line_def upt_conv_Cons



text \<open>
  A legal split point ends inside the window: a marker that begins in the window but
  whose first twelve characters do not end in it is not found, and without a blank line
  the cut at the budget goes through its line.
\<close>

lemma marker_needle_must_fit:
  "match_at needle_doc file_marker 8 \<and>
   split_points needle_doc file_marker 0 12 = [] \<and>
   split_points needle_doc blank_line 0 12 = [] \<and>
   next_end needle_doc 12 0 = 12 \<and>
   divides_line needle_doc 12"
  by (simp add: needle_doc_def cut_eval chunk_eval)

text \<open>
  C7, as the code has it: when the budget is positive and smaller than the document,
  the document is cut into consecutive non-empty segments of at most the budget, and the
  chunks are these segments, each stripped and ended by one newline, the all-whitespace
  segments left out. When the guard returns early, the chunks concatenate to the
  document itself, with no stripping and no added newline.
\<close>

theorem chunk_text_segments:
  "(max_chunk_chars \<le> 0 \<or> int (length s) \<le> max_chunk_chars \<longrightarrow>
      (\<exists>cs. chunk_text s max_chunk_chars = Some cs \<and> concat cs = s)) \<and>
   (0 < max_chunk_chars \<and> max_chunk_chars < int (length s) \<longrightarrow>
      (\<exists>segs. concat segs = s \<and>
         (\<forall>g \<in> set segs. g \<noteq> [] \<and> int (length g) \<le> max_chunk_chars) \<and>
         chunk_text s max_chunk_chars =
           Some (map (\<lambda>g. strip g @ [c_nl]) (filter (\<lambda>g. strip g \<noteq> []) segs))))"
proof (intro conjI impI)
  assume "max_chunk_chars \<le> 0 \<or> int (length s) \<le> max_chunk_chars"
  then show "\<exists>cs. chunk_text s max_chunk_chars = Some cs \<and> concat cs = s"
    by (auto simp: chunk_text_def)
next
  assume a: "0 < max_chunk_chars \<and> max_chunk_chars < int (length s)"
  then have m: "0 < nat max_chunk_chars" by simp
  from chunk_loop_segments[OF m, of 0 s "[]"] obtain segs where
    segs: "concat segs = s" "\<forall>g \<in> set segs. g \<noteq> [] \<and> length g \<le> nat max_chunk_chars"
      "chunk_loop s (nat max_chunk_chars) 0 [] =
         Some (map (\<lambda>g. strip g @ [c_nl]) (filter (\<lambda>g. strip g \<noteq> []) segs))"
    by auto
  have "\<forall>g \<in> set segs. g \<noteq> [] \<and> int (length g) \<le> max_chunk_chars"
    using segs(2) a by auto
  moreover have "chunk_text s max_chunk_chars =
           Some (map (\<lambda>g. strip g @ [c_nl]) (filter (\<lambda>g. strip g \<noteq> []) segs))"
    using a segs(3) by (simp add: chunk_text_def)
  ultimately show "\<exists>segs. concat segs = s \<and>
         (\<forall>g \<in> set segs. g \<noteq> [] \<and> int (length g) \<le> max_chunk_chars) \<and>
         chunk_text s max_chunk_chars =
           Some (map (\<lambda>g. strip g @ [c_nl]) (filter (\<lambda>g. strip g \<noteq> []) segs))"
    using segs(1) by blast
qed

text \<open>Both paths of the theorem at concrete documents.\<close>

theorem chunk_text_segments_witness:
  "(0::int) < 3 \<and> (3::int) < int (length (str ''abcdefg'')) \<and>
   ((5::int) \<le> 0 \<or> int (length (str ''a'')) \<le> 5) \<and>
   (\<exists>cs. chunk_text (str ''a'') 5 = Some cs \<and> concat cs = str ''a'') \<and>
   (\<exists>segs. concat segs = str ''abcdefg'' \<and>
         (\<forall>g \<in> set segs. g \<noteq> [] \<and> int (length g) \<le> 3) \<and>
         chunk_text (str ''abcdefg'') 3 =
           Some (map (\<lambda>g. strip g @ [c_nl]) (filter (\<lambda>g. strip g \<noteq> []) segs)))"
proof -
  have h1: "(0::int) < 3 \<and> (3::int) < int (length (str ''abcdefg''))" by (simp add: str_def)
  have h2: "(5::int) \<le> 0 \<or> int (length (str ''a'')) \<le> 5" by (simp add: str_def)
  from chunk_text_segments[of 3 "str ''abcdefg''"] chunk_text_segments[of 5 "str ''a''"] h1 h2
  show ?thesis by blast
qed

text \<open>
  C7 as stated fails on the early return: for the document \<open>a\<close> and the budget 5 the
  only chunk is \<open>a\<close>, which is no stripped segment followed by a newline.
\<close>

theorem chunk_text_segments_counterexample:
  "\<not> (\<exists>segs. concat segs = str ''a'' \<and>
         chunk_text (str ''a'') 5 =
           Some (map (\<lambda>g. strip g @ [c_nl]) (filter (\<lambda>g. strip g \<noteq> []) segs)))"
proof
  assume "\<exists>segs. concat segs = str ''a'' \<and>
         chunk_text (str ''a'') 5 =
           Some (map (\<lambda>g. strip g @ [c_nl]) (filter (\<lambda>g. strip g \<noteq> []) segs))"
  then obtain segs where
    "chunk_text (str ''a'') 5 = Some (map (\<lambda>g. strip g @ [c_nl]) (filter (\<lambda>g. strip g \<noteq> []) segs))"
    by blast
  moreover have "chunk_text (str ''a'') 5 = Some [str ''a'']" by (simp add: chunk_text_def str_def)
  ultimately have "[str ''a''] = map (\<lambda>g. strip g @ [c_nl]) (filter (\<lambda>g. strip g \<noteq> []) segs)"
    by simp
  then obtain g where "str ''a'' = strip g @ [c_nl]" by (auto simp: Cons_eq_map_conv)
  then have "last (str ''a'') = c_nl" by (metis last_snoc)
  then show False by (simp add: str_def)
qed

text \<open>
  C3, as the code has it: when the budget is positive and smaller than the document,
  the document is covered by consecutive non-empty slices of at most the budget, and the
  chunks, trimmed, are in order the trimmed slices that are not empty. So every chunk is
  non-empty after trimming, and its trimmed content is no longer than the budget: a unit
  longer than the budget is cut, not emitted whole.
\<close>

theorem chunk_text_bounds:
  "0 < max_chunk_chars \<Longrightarrow> max_chunk_chars < int (length s) \<Longrightarrow>
     \<exists>cs segs. chunk_text s max_chunk_chars = Some cs \<and> concat segs = s \<and>
       (\<forall>g \<in> set segs. g \<noteq> [] \<and> int (length g) \<le> max_chunk_chars) \<and>
       map strip cs = filter (\<lambda>t. t \<noteq> []) (map strip segs) \<and>
       (\<forall>c \<in> set cs. strip c \<noteq> [] \<and> int (length (strip c)) \<le> max_chunk_chars)"
proof -
  assume a: "0 < max_chunk_chars" "max_chunk_chars < int (length s)"
  then have m: "0 < nat max_chunk_chars" by simp
  from chunk_loop_segments[OF m, of 0 s "[]"] obtain segs where
    segs: "concat segs = s" "\<forall>g \<in> set segs. g \<noteq> [] \<and> length g \<le> nat max_chunk_chars"
      "chunk_loop s (nat max_chunk_chars) 0 [] =
         Some (map (\<lambda>g. strip g @ [c_nl]) (filter (\<lambda>g. strip g \<noteq> []) segs))"
    by auto
  define cs where "cs = map (\<lambda>g. strip g @ [c_nl]) (filter (\<lambda>g. strip g \<noteq> []) segs)"
  have ct: "chunk_text s max_chunk_chars = Some cs"
    using a segs(3) by (simp add: chunk_text_def cs_def)
  have sg: "\<forall>g \<in> set segs. g \<noteq> [] \<and> int (length g) \<le> max_chunk_chars"
    using segs(2) a by auto
  have e: "strip (strip g @ [c_nl]) = strip g" if "strip g \<noteq> []" for g
    using strip_emit[OF that strip_strip] .
  have "map strip cs = map strip (filter (\<lambda>g. strip g \<noteq> []) segs)"
    unfolding cs_def by (simp add: e)
  also have "\<dots> = filter (\<lambda>t. t \<noteq> []) (map strip segs)"
    by (simp add: filter_map comp_def)
  finally have ms: "map strip cs = filter (\<lambda>t. t \<noteq> []) (map strip segs)" .
  have bd: "strip c \<noteq> [] \<and> int (length (strip c)) \<le> max_chunk_chars" if "c \<in> set cs" for c
  proof -
    from that obtain g where g: "g \<in> set segs" "strip g \<noteq> []" "c = strip g @ [c_nl]"
      by (auto simp: cs_def)
    have "length (strip g) \<le> length g" by (rule length_strip)
    with sg g(1) have "int (length (strip g)) \<le> max_chunk_chars" by fastforce
    with g e[OF g(2)] show ?thesis by simp
  qed
  then have bd': "\<forall>c \<in> set cs. strip c \<noteq> [] \<and> int (length (strip c)) \<le> max_chunk_chars" by blast
  show ?thesis
    by (rule exI[of _ cs], rule exI[of _ segs]) (intro conjI ct segs(1) sg ms bd')
qed

text \<open>The document \<open>abcdefg\<close> with the budget 3.\<close>

theorem chunk_text_bounds_witness:
  "(0::int) < 3 \<and> 3 < int (length (str ''abcdefg'')) \<and>
   (\<exists>cs segs. chunk_text (str ''abcdefg'') 3 = Some cs \<and> concat segs = str ''abcdefg'' \<and>
       (\<forall>g \<in> set segs. g \<noteq> [] \<and> int (length g) \<le> 3) \<and>
       map strip cs = filter (\<lambda>t. t \<noteq> []) (map strip segs) \<and>
       (\<forall>c \<in> set cs. strip c \<noteq> [] \<and> int (length (strip c)) \<le> 3))"
proof -
  have h1: "(0::int) < 3" by simp
  have h2: "3 < int (length (str ''abcdefg''))" by (simp add: str_def)
  from chunk_text_bounds[OF h1 h2] h1 h2 show ?thesis by blast
qed

text \<open>
  C3 as stated fails twice. A document of one space within the budget comes back from
  the early return as the chunk of one space, which is empty after trimming. And one
  file block of 42 characters with the budget 15 is not emitted whole.
\<close>

theorem chunk_text_bounds_counterexample:
  "chunk_text (str '' '') 5 = Some [str '' ''] \<and> strip (str '' '') = [] \<and>
   15 < int (length demo_unit) \<and> chunk_text demo_unit 15 \<noteq> Some [demo_unit]"
  by (simp add: demo_unit_def chunk_eval)

text \<open>
  What the bound does not say: the newline is appended after the slice is trimmed, so a
  slice that fills the budget and has no whitespace at its ends gives a chunk of one
  character more than the budget, which the help text of \<open>--chunk-chars\<close> calls the
  maximum of characters per chunk.
\<close>

lemma chunk_text_hard_cut_example:
  "chunk_text (str ''abcdefg'') 3 =
     Some [str ''abc'' @ [c_nl], str ''def'' @ [c_nl], str ''g'' @ [c_nl]] \<and>
   length (str ''abc'' @ [c_nl]) = 4"
  by (simp add: chunk_eval)

section \<open>The scanners: escapes, literals and malformed input\<close>

lemma emit_simps [simp]: "emit ch (out, st) = (ch # out, st)" "fst (emit ch r) = ch # fst r" "snd (emit ch r) = snd r"
  by (simp_all add: emit_def)

text \<open>
  C2, as the code has it: in the loop of each literal-aware scanner (the C-like and the
  SQL loop, the per-line loops of the hash-line and the Python scanner), while it is
  inside a literal and no escape is pending, a backslash is emitted and sets the escape
  flag; under the flag the next character, whatever it is (a quote too), is emitted, the
  flag is cleared, and the loop is in the state it had before the backslash: still
  inside the literal, with no escape pending.
\<close>

theorem escape_protects_next_char:
  "\<not> escape st \<longrightarrow>
     (\<not> in_line st \<and> \<not> in_block st \<and> (in_str st \<or> in_char st) \<longrightarrow>
        c_like_loop st (c_bslash # rest) = emit c_bslash (c_like_loop (st\<lparr>escape := True\<rparr>) rest) \<and>
        c_like_loop (st\<lparr>escape := True\<rparr>) (c # rest) = emit c (c_like_loop st rest) \<and>
        c_like_loop st (c_bslash # c # rest) = emit c_bslash (emit c (c_like_loop st rest))) \<and>
     (\<not> in_block st \<and> in_str st \<longrightarrow>
        sql_loop st (c_bslash # rest) = emit c_bslash (sql_loop (st\<lparr>escape := True\<rparr>) rest) \<and>
        sql_loop (st\<lparr>escape := True\<rparr>) (c # rest) = emit c (sql_loop st rest) \<and>
        sql_loop st (c_bslash # c # rest) = emit c_bslash (emit c (sql_loop st rest))) \<and>
     (in_str st \<longrightarrow>
        hash_loop st (c_bslash # rest) = emit c_bslash (hash_loop (st\<lparr>escape := True\<rparr>) rest) \<and>
        hash_loop (st\<lparr>escape := True\<rparr>) (c # rest) = emit c (hash_loop st rest) \<and>
        hash_loop st (c_bslash # c # rest) = emit c_bslash (emit c (hash_loop st rest))) \<and>
     (in_str st \<longrightarrow>
        py_loop st (c_bslash # rest) = emit c_bslash (py_loop (st\<lparr>escape := True\<rparr>) rest) \<and>
        py_loop (st\<lparr>escape := True\<rparr>) (c # rest) = emit c (py_loop st rest) \<and>
        py_loop st (c_bslash # c # rest) = emit c_bslash (emit c (py_loop st rest)))"
proof (intro impI conjI)
  assume e: "\<not> escape st"
  then have undo: "st\<lparr>escape := True\<rparr>\<lparr>escape := False\<rparr> = st" by simp
  {
    assume a: "\<not> in_line st \<and> \<not> in_block st \<and> (in_str st \<or> in_char st)"
    show 1: "c_like_loop st (c_bslash # rest) = emit c_bslash (c_like_loop (st\<lparr>escape := True\<rparr>) rest)" for rest
      using e a by (simp add: Let_def)
    show 2: "c_like_loop (st\<lparr>escape := True\<rparr>) (c # rest) = emit c (c_like_loop st rest)" for c rest
      using a by (simp add: Let_def undo)
    show "c_like_loop st (c_bslash # c # rest) = emit c_bslash (emit c (c_like_loop st rest))"
      by (simp only: 1 2)
  }
  {
    assume a: "\<not> in_block st \<and> in_str st"
    show 1: "sql_loop st (c_bslash # rest) = emit c_bslash (sql_loop (st\<lparr>escape := True\<rparr>) rest)" for rest
      using e a by (simp add: Let_def)
    show 2: "sql_loop (st\<lparr>escape := True\<rparr>) (c # rest) = emit c (sql_loop st rest)" for c rest
      using a by (simp add: Let_def undo)
    show "sql_loop st (c_bslash # c # rest) = emit c_bslash (emit c (sql_loop st rest))"
      by (simp only: 1 2)
  }
  {
    assume a: "in_str st"
    show 1: "hash_loop st (c_bslash # rest) = emit c_bslash (hash_loop (st\<lparr>escape := True\<rparr>) rest)" for rest
      using e a by simp
    show 2: "hash_loop (st\<lparr>escape := True\<rparr>) (c # rest) = emit c (hash_loop st rest)" for c rest
      using a by (simp add: undo)
    show "hash_loop st (c_bslash # c # rest) = emit c_bslash (emit c (hash_loop st rest))"
      by (simp only: 1 2)
  }
  {
    assume a: "in_str st"
    show 1: "py_loop st (c_bslash # rest) = emit c_bslash (py_loop (st\<lparr>escape := True\<rparr>) rest)" for rest
      using e a by simp
    show 2: "py_loop (st\<lparr>escape := True\<rparr>) (c # rest) = emit c (py_loop st rest)" for c rest
      using a by (simp add: undo)
    show "py_loop st (c_bslash # c # rest) = emit c_bslash (emit c (py_loop st rest))"
      by (simp only: 1 2)
  }
qed

text \<open>Inside a double-quoted string, at an escaped double quote.\<close>

theorem escape_protects_next_char_witness:
  "\<not> escape in_dquote \<and> \<not> in_line in_dquote \<and> \<not> in_block in_dquote \<and> in_str in_dquote \<and>
   c_like_loop in_dquote (c_bslash # c_dquote # str ''x'') =
     emit c_bslash (emit c_dquote (c_like_loop in_dquote (str ''x''))) \<and>
   sql_loop in_dquote (c_bslash # c_dquote # str ''x'') =
     emit c_bslash (emit c_dquote (sql_loop in_dquote (str ''x''))) \<and>
   hash_loop in_dquote (c_bslash # c_dquote # str ''x'') =
     emit c_bslash (emit c_dquote (hash_loop in_dquote (str ''x''))) \<and>
   py_loop in_dquote (c_bslash # c_dquote # str ''x'') =
     emit c_bslash (emit c_dquote (py_loop in_dquote (str ''x''))) \<and>
   c_like_loop in_dquote (c_bslash # c_dquote # str ''x'') = (c_bslash # c_dquote # str ''x'', in_dquote)"
proof -
  have h: "\<not> escape in_dquote" "\<not> in_line in_dquote" "\<not> in_block in_dquote" "in_str in_dquote"
    by (simp_all add: in_dquote_def init_state_def)
  have v: "c_like_loop in_dquote (str ''x'') = (str ''x'', in_dquote)"
    by (simp add: in_dquote_def init_state_def str_def Let_def peek_def)
  from escape_protects_next_char[of in_dquote "str ''x''" c_dquote] h v
  show ?thesis by simp
qed

lemma c_like_in_str_body:
  assumes "in_str st" "\<not> in_char st" "\<not> in_line st" "\<not> in_block st" "quote st = [q]"
    and "body_end q (escape st) body = Some e"
  shows "c_like_loop st (body @ rest) =
           (body @ fst (c_like_loop (st\<lparr>escape := e\<rparr>) rest), snd (c_like_loop (st\<lparr>escape := e\<rparr>) rest))"
  using assms
proof (induction body arbitrary: st)
  case Nil
  then have "st\<lparr>escape := e\<rparr> = st" by (cases st) simp
  then show ?case by simp
next
  case (Cons c cs)
  show ?case
  proof (cases "escape st")
    case True
    with Cons.prems have "body_end q (escape (st\<lparr>escape := False\<rparr>)) cs = Some e" by simp
    from Cons.IH[OF _ _ _ _ _ this] Cons.prems True show ?thesis
      by (simp add: Let_def)
  next
    case False
    show ?thesis
    proof (cases "c = c_bslash")
      case True
      with Cons.prems False have "body_end q (escape (st\<lparr>escape := True\<rparr>)) cs = Some e" by simp
      from Cons.IH[OF _ _ _ _ _ this] Cons.prems True False show ?thesis
        by (simp add: Let_def)
    next
      case nb: False
      with Cons.prems False have cq: "c \<noteq> q" and "body_end q (escape st) cs = Some e"
        by (auto split: if_splits)
      from Cons.IH[OF _ _ _ _ _ this(2)] Cons.prems nb False cq show ?thesis
        by (simp add: Let_def)
    qed
  qed
qed

lemma c_like_in_char_body:
  assumes "in_char st" "\<not> in_str st" "\<not> in_line st" "\<not> in_block st"
    and "body_end c_squote (escape st) body = Some e"
  shows "c_like_loop st (body @ rest) =
           (body @ fst (c_like_loop (st\<lparr>escape := e\<rparr>) rest), snd (c_like_loop (st\<lparr>escape := e\<rparr>) rest))"
  using assms
proof (induction body arbitrary: st)
  case Nil
  then have "st\<lparr>escape := e\<rparr> = st" by (cases st) simp
  then show ?case by simp
next
  case (Cons c cs)
  show ?case
  proof (cases "escape st")
    case True
    with Cons.prems have "body_end c_squote (escape (st\<lparr>escape := False\<rparr>)) cs = Some e" by simp
    from Cons.IH[OF _ _ _ _ this] Cons.prems True show ?thesis
      by (simp add: Let_def)
  next
    case False
    show ?thesis
    proof (cases "c = c_bslash")
      case True
      with Cons.prems False have "body_end c_squote (escape (st\<lparr>escape := True\<rparr>)) cs = Some e" by simp
      from Cons.IH[OF _ _ _ _ this] Cons.prems True False show ?thesis
        by (simp add: Let_def)
    next
      case nb: False
      with Cons.prems False have cq: "c \<noteq> c_squote" and "body_end c_squote (escape st) cs = Some e"
        by (auto split: if_splits)
      from Cons.IH[OF _ _ _ _ this(2)] Cons.prems nb False cq show ?thesis
        by (simp add: Let_def)
    qed
  qed
qed

lemma sql_in_str_body:
  assumes "in_str st" "\<not> in_block st" "quote st = [q]"
    and "body_end q (escape st) body = Some e"
  shows "sql_loop st (body @ rest) =
           (body @ fst (sql_loop (st\<lparr>escape := e\<rparr>) rest), snd (sql_loop (st\<lparr>escape := e\<rparr>) rest))"
  using assms
proof (induction body arbitrary: st)
  case Nil
  then have "st\<lparr>escape := e\<rparr> = st" by (cases st) simp
  then show ?case by simp
next
  case (Cons c cs)
  show ?case
  proof (cases "escape st")
    case True
    with Cons.prems have "body_end q (escape (st\<lparr>escape := False\<rparr>)) cs = Some e" by simp
    from Cons.IH[OF _ _ _ this] Cons.prems True show ?thesis
      by (simp add: Let_def)
  next
    case False
    show ?thesis
    proof (cases "c = c_bslash")
      case True
      with Cons.prems False have "body_end q (escape (st\<lparr>escape := True\<rparr>)) cs = Some e" by simp
      from Cons.IH[OF _ _ _ this] Cons.prems True False show ?thesis
        by (simp add: Let_def)
    next
      case nb: False
      with Cons.prems False have cq: "c \<noteq> q" and "body_end q (escape st) cs = Some e"
        by (auto split: if_splits)
      from Cons.IH[OF _ _ _ this(2)] Cons.prems nb False cq show ?thesis
        by (simp add: Let_def)
    qed
  qed
qed

lemma hash_in_str_body:
  assumes "in_str st" "quote st = [q]"
    and "body_end q (escape st) body = Some e"
  shows "hash_loop st (body @ rest) =
           (body @ fst (hash_loop (st\<lparr>escape := e\<rparr>) rest), snd (hash_loop (st\<lparr>escape := e\<rparr>) rest))"
  using assms
proof (induction body arbitrary: st)
  case Nil
  then have "st\<lparr>escape := e\<rparr> = st" by (cases st) simp
  then show ?case by simp
next
  case (Cons c cs)
  show ?case
  proof (cases "escape st")
    case True
    with Cons.prems have "body_end q (escape (st\<lparr>escape := False\<rparr>)) cs = Some e" by simp
    from Cons.IH[OF _ _ this] Cons.prems True show ?thesis
      by simp
  next
    case False
    show ?thesis
    proof (cases "c = c_bslash")
      case True
      with Cons.prems False have "body_end q (escape (st\<lparr>escape := True\<rparr>)) cs = Some e" by simp
      from Cons.IH[OF _ _ this] Cons.prems True False show ?thesis
        by simp
    next
      case nb: False
      with Cons.prems False have cq: "c \<noteq> q" and "body_end q (escape st) cs = Some e"
        by (auto split: if_splits)
      from Cons.IH[OF _ _ this(2)] Cons.prems nb False cq show ?thesis
        by simp
    qed
  qed
qed

lemma py_loop_eq_hash_loop: "py_loop st line = hash_loop st line"
  by (induction st line rule: hash_loop.induct) simp_all

lemma str_find_ConsD:
  assumes "str_find sub (c # cs) = None"
  shows "take (length sub) (c # cs) \<noteq> sub" and "str_find sub cs = None"
  using assms by (auto split: if_splits)

lemma str_find_drop: "str_find sub s = None \<Longrightarrow> str_find sub (drop n s) = None"
proof (induction s arbitrary: n)
  case Nil
  then show ?case by simp
next
  case (Cons c cs)
  show ?case
  proof (cases n)
    case 0
    with Cons.prems show ?thesis by simp
  next
    case (Suc k)
    from Cons.IH[OF str_find_ConsD(2)[OF Cons.prems], of k] Suc show ?thesis by simp
  qed
qed

lemma c_like_in_block_rest:
  assumes "in_block st" "\<not> in_line st" and "str_find block_close s = None"
  shows "c_like_loop st s = ([], st)"
  using assms
proof (induction s)
  case Nil
  then show ?case by simp
next
  case (Cons c cs)
  from str_find_ConsD[OF Cons.prems(3)]
  have n: "take 2 (c # cs) \<noteq> block_close" and r: "str_find block_close cs = None"
    by (simp_all add: block_close_def)
  from n have "\<not> (c = c_star \<and> peek cs = Some c_slash)"
    by (cases cs) (auto simp: block_close_def peek_def)
  with Cons.IH[OF Cons.prems(1,2) r] Cons.prems(1,2) show ?case by (auto simp: Let_def)
qed

lemma sql_in_block_rest:
  assumes "in_block st" and "str_find block_close s = None"
  shows "sql_loop st s = ([], st)"
  using assms
proof (induction s)
  case Nil
  then show ?case by simp
next
  case (Cons c cs)
  from str_find_ConsD[OF Cons.prems(2)]
  have n: "take 2 (c # cs) \<noteq> block_close" and r: "str_find block_close cs = None"
    by (simp_all add: block_close_def)
  from n have "\<not> (c = c_star \<and> peek cs = Some c_slash)"
    by (cases cs) (auto simp: block_close_def peek_def)
  with Cons.IH[OF Cons.prems(1) r] Cons.prems(1) show ?case by (auto simp: Let_def)
qed

lemma html_no_close:
  "str_find html_close s = None \<Longrightarrow> strip_html_comments s = s"
proof (induction s rule: strip_html_comments.induct)
  case 1
  then show ?case by simp
next
  case (2 c cs)
  from str_find_drop[OF "2.prems", of 4] have d: "str_find html_close (drop 4 (c # cs)) = None" .
  from str_find_ConsD(2)[OF "2.prems"] have r: "str_find html_close cs = None" .
  show ?case
  proof (cases "match_at (c # cs) html_open 0")
    case True
    from "2.IH"(1)[OF True d r] True d show ?thesis by simp
  next
    case False
    from "2.IH"(3)[OF False r] False show ?thesis by simp
  qed
qed

lemma quote_update_commute:
  "st\<lparr>quote := x, in_line := b\<rparr> = st\<lparr>in_line := b, quote := x\<rparr>"
  "st\<lparr>quote := x, in_block := b\<rparr> = st\<lparr>in_block := b, quote := x\<rparr>"
  "st\<lparr>quote := x, in_char := b\<rparr> = st\<lparr>in_char := b, quote := x\<rparr>"
  "st\<lparr>quote := x, escape := b\<rparr> = st\<lparr>escape := b, quote := x\<rparr>"
  by simp_all

lemma c_like_quote_irrelevant:
  "\<not> in_str st \<Longrightarrow> fst (c_like_loop (st\<lparr>quote := x\<rparr>) t) = fst (c_like_loop st t)"
proof (induction st t rule: c_like_loop.induct)
  case (1 st)
  then show ?case by simp
next
  case (2 st ch rest)
  then show ?case by (auto simp: Let_def quote_update_commute)
qed

lemma sql_quote_irrelevant:
  "\<not> in_str st \<Longrightarrow> fst (sql_loop (st\<lparr>quote := x\<rparr>) t) = fst (sql_loop st t)"
proof (induction st t rule: sql_loop.induct)
  case (1 st)
  then show ?case by simp
next
  case (2 st ch rest)
  then show ?case by (auto simp: Let_def quote_update_commute)
qed

lemma hash_quote_irrelevant:
  "\<not> in_str st \<Longrightarrow> fst (hash_loop (st\<lparr>quote := x\<rparr>) t) = fst (hash_loop st t)"
proof (induction st t rule: hash_loop.induct)
  case (1 st)
  then show ?case by simp
next
  case (2 st ch rest)
  then show ?case by (auto simp: quote_update_commute)
qed

lemma normal_open_str:
  assumes "normal_mode st"
  shows "in_str (st\<lparr>in_str := True, quote := [q]\<rparr>)" "\<not> in_char (st\<lparr>in_str := True, quote := [q]\<rparr>)"
    "\<not> in_line (st\<lparr>in_str := True, quote := [q]\<rparr>)" "\<not> in_block (st\<lparr>in_str := True, quote := [q]\<rparr>)"
    "quote (st\<lparr>in_str := True, quote := [q]\<rparr>) = [q]"
    "escape (st\<lparr>in_str := True, quote := [q]\<rparr>) = False"
    "st\<lparr>in_str := True, quote := [q]\<rparr>\<lparr>escape := False\<rparr> = st\<lparr>in_str := True, quote := [q]\<rparr>"
    "st\<lparr>in_str := True, quote := [q]\<rparr>\<lparr>in_str := False\<rparr> = st\<lparr>quote := [q]\<rparr>"
  using assms by (simp_all add: normal_mode_def)

lemma normal_open_char:
  assumes "normal_mode st"
  shows "in_char (st\<lparr>in_char := True\<rparr>)" "\<not> in_str (st\<lparr>in_char := True\<rparr>)"
    "\<not> in_line (st\<lparr>in_char := True\<rparr>)" "\<not> in_block (st\<lparr>in_char := True\<rparr>)"
    "escape (st\<lparr>in_char := True\<rparr>) = False"
    "st\<lparr>in_char := True\<rparr>\<lparr>escape := False\<rparr> = st\<lparr>in_char := True\<rparr>"
    "st\<lparr>in_char := True\<rparr>\<lparr>in_char := False\<rparr> = st"
  using assms by (simp_all add: normal_mode_def)

lemma c_like_string_literal:
  assumes n: "normal_mode st" and q: "q = c_dquote \<or> q = c_btick" and b: "literal_body q body"
  shows "fst (c_like_loop st (q # body @ q # rest)) = q # body @ q # fst (c_like_loop st rest)"
proof -
  let ?s = "st\<lparr>in_str := True, quote := [q]\<rparr>"
  note o = normal_open_str[OF n, of q]
  from b have be: "body_end q (escape ?s) body = Some False" by (simp add: literal_body_def o(6))
  have 1: "c_like_loop st (q # body @ q # rest) = emit q (c_like_loop ?s (body @ q # rest))"
    using n q by (auto simp: normal_mode_def Let_def)
  have 2: "c_like_loop ?s (body @ q # rest) =
             (body @ fst (c_like_loop ?s (q # rest)), snd (c_like_loop ?s (q # rest)))"
    using c_like_in_str_body[OF o(1,2,3,4,5) be, of "q # rest"] by (simp only: o(7))
  have 3: "c_like_loop ?s (q # rest) = emit q (c_like_loop (st\<lparr>quote := [q]\<rparr>) rest)"
    using o(1,3,4,5,6) q by (auto simp: Let_def o(8))
  have "\<not> in_str st" using n by (simp add: normal_mode_def)
  from c_like_quote_irrelevant[OF this] show ?thesis unfolding 1 2 3 by simp
qed

lemma c_like_char_literal:
  assumes n: "normal_mode st" and b: "literal_body c_squote body"
  shows "fst (c_like_loop st (c_squote # body @ c_squote # rest)) =
           c_squote # body @ c_squote # fst (c_like_loop st rest)"
proof -
  let ?s = "st\<lparr>in_char := True\<rparr>"
  note o = normal_open_char[OF n]
  from b have be: "body_end c_squote (escape ?s) body = Some False" by (simp add: literal_body_def o(5))
  have 1: "c_like_loop st (c_squote # body @ c_squote # rest) = emit c_squote (c_like_loop ?s (body @ c_squote # rest))"
    using n by (auto simp: normal_mode_def Let_def)
  have 2: "c_like_loop ?s (body @ c_squote # rest) =
             (body @ fst (c_like_loop ?s (c_squote # rest)), snd (c_like_loop ?s (c_squote # rest)))"
    using c_like_in_char_body[OF o(1,2,3,4) be, of "c_squote # rest"] by (simp only: o(6))
  have 3: "c_like_loop ?s (c_squote # rest) = emit c_squote (c_like_loop st rest)"
    using o(1,2,3,4,5) by (auto simp: Let_def o(7))
  show ?thesis unfolding 1 2 3 by simp
qed

lemma sql_string_literal:
  assumes n: "normal_mode st" and q: "q = c_squote \<or> q = c_dquote" and b: "literal_body q body"
  shows "fst (sql_loop st (q # body @ q # rest)) = q # body @ q # fst (sql_loop st rest)"
proof -
  let ?s = "st\<lparr>in_str := True, quote := [q]\<rparr>"
  note o = normal_open_str[OF n, of q]
  from b have be: "body_end q (escape ?s) body = Some False" by (simp add: literal_body_def o(6))
  have 1: "sql_loop st (q # body @ q # rest) = emit q (sql_loop ?s (body @ q # rest))"
    using n q by (auto simp: normal_mode_def Let_def)
  have 2: "sql_loop ?s (body @ q # rest) =
             (body @ fst (sql_loop ?s (q # rest)), snd (sql_loop ?s (q # rest)))"
    using sql_in_str_body[OF o(1,4,5) be, of "q # rest"] by (simp only: o(7))
  have 3: "sql_loop ?s (q # rest) = emit q (sql_loop (st\<lparr>quote := [q]\<rparr>) rest)"
    using o(1,4,5,6) q by (auto simp: Let_def o(8))
  have "\<not> in_str st" using n by (simp add: normal_mode_def)
  from sql_quote_irrelevant[OF this] show ?thesis unfolding 1 2 3 by simp
qed

lemma hash_string_literal:
  assumes n: "normal_mode st" and q: "q = c_squote \<or> q = c_dquote" and b: "literal_body q body"
  shows "fst (hash_loop st (q # body @ q # rest)) = q # body @ q # fst (hash_loop st rest)"
proof -
  let ?s = "st\<lparr>in_str := True, quote := [q]\<rparr>"
  note o = normal_open_str[OF n, of q]
  from b have be: "body_end q (escape ?s) body = Some False" by (simp add: literal_body_def o(6))
  have 1: "hash_loop st (q # body @ q # rest) = emit q (hash_loop ?s (body @ q # rest))"
    using n q by (auto simp: normal_mode_def)
  have 2: "hash_loop ?s (body @ q # rest) =
             (body @ fst (hash_loop ?s (q # rest)), snd (hash_loop ?s (q # rest)))"
    using hash_in_str_body[OF o(1,5) be, of "q # rest"] by (simp only: o(7))
  have 3: "hash_loop ?s (q # rest) = emit q (hash_loop (st\<lparr>quote := [q]\<rparr>) rest)"
    using o(1,5,6) q by (auto simp: o(8))
  have "\<not> in_str st" using n by (simp add: normal_mode_def)
  from hash_quote_irrelevant[OF this] show ?thesis unfolding 1 2 3 by simp
qed

lemma normal_init: "normal_mode init_state"
  by (simp add: normal_mode_def init_state_def)

lemmas scan_eval = strip_c_like_comments_def strip_sql_comments_def strip_hash_line_comments_def
  strip_python_comments_def init_state_def str_def Let_def peek_def unix_newlines_def
  literal_body_def unterminated_body_def normal_mode_def block_close_def html_open_def
  html_close_def match_at_def triple_squote_def triple_dquote_def open_triple_def

text \<open>
  C1, as the code has it: whenever the loop of a literal-aware scanner stands, outside
  every comment and literal, in front of a literal (an opening quote the scanner knows,
  a body whose quotes are all escaped, the closing quote), it emits the literal verbatim,
  whatever comment openers the body holds, and goes on behind it as it would from the
  state it was in. The C-like scanner knows the double quote, the backtick and the single
  quote, the SQL scanner and the two per-line scanners the single and the double quote.
\<close>

theorem literal_survives:
  "normal_mode st \<and> literal_body q body \<longrightarrow>
     ((q = c_dquote \<or> q = c_btick \<or> q = c_squote) \<longrightarrow>
        fst (c_like_loop st (q # body @ q # rest)) = q # body @ q # fst (c_like_loop st rest)) \<and>
     ((q = c_squote \<or> q = c_dquote) \<longrightarrow>
        fst (sql_loop st (q # body @ q # rest)) = q # body @ q # fst (sql_loop st rest) \<and>
        fst (hash_loop st (q # body @ q # rest)) = q # body @ q # fst (hash_loop st rest) \<and>
        fst (py_loop st (q # body @ q # rest)) = q # body @ q # fst (py_loop st rest))"
proof (intro impI conjI)
  assume a: "normal_mode st \<and> literal_body q body"
  then have n: "normal_mode st" and b: "literal_body q body" by simp_all
  {
    assume "q = c_dquote \<or> q = c_btick \<or> q = c_squote"
    then consider "q = c_dquote \<or> q = c_btick" | "q = c_squote" by blast
    then show "fst (c_like_loop st (q # body @ q # rest)) = q # body @ q # fst (c_like_loop st rest)"
    proof cases
      case 1
      from c_like_string_literal[OF n 1 b] show ?thesis .
    next
      case 2
      from c_like_char_literal[OF n b[unfolded 2]] show ?thesis unfolding 2 .
    qed
  }
  {
    assume q: "q = c_squote \<or> q = c_dquote"
    from sql_string_literal[OF n q b]
    show "fst (sql_loop st (q # body @ q # rest)) = q # body @ q # fst (sql_loop st rest)" .
    from hash_string_literal[OF n q b]
    show "fst (hash_loop st (q # body @ q # rest)) = q # body @ q # fst (hash_loop st rest)" .
    then show "fst (py_loop st (q # body @ q # rest)) = q # body @ q # fst (py_loop st rest)"
      by (simp only: py_loop_eq_hash_loop)
  }
qed

text \<open>A double-quoted URL with comment openers of every kind, at the start of the text.\<close>

theorem literal_survives_witness:
  "normal_mode init_state \<and> literal_body c_dquote (str ''http://a.b/*#--'') \<and>
   strip_c_like_comments (c_dquote # str ''http://a.b/*#--'' @ c_dquote # str ''; // note'') =
     c_dquote # str ''http://a.b/*#--'' @ c_dquote # str ''; '' \<and>
   strip_sql_comments (c_dquote # str ''http://a.b/*#--'' @ c_dquote # str ''; -- note'') =
     c_dquote # str ''http://a.b/*#--'' @ c_dquote # str ''; '' \<and>
   strip_hash_line_comments (c_dquote # str ''http://a.b/*#--'' @ c_dquote # str ''; # note'') =
     c_dquote # str ''http://a.b/*#--'' @ c_dquote # str ''; '' \<and>
   strip_python_comments (c_dquote # str ''http://a.b/*#--'' @ c_dquote # str ''; # note'') False =
     c_dquote # str ''http://a.b/*#--'' @ c_dquote # str ''; ''"
proof -
  have n: "normal_mode init_state" by (rule normal_init)
  have b: "literal_body c_dquote (str ''http://a.b/*#--'')" by (simp add: scan_eval)
  have r1: "fst (c_like_loop init_state (str ''; // note'')) = str ''; ''" by (simp add: scan_eval)
  have r2: "fst (sql_loop init_state (str ''; -- note'')) = str ''; ''" by (simp add: scan_eval)
  have r3: "fst (hash_loop init_state (str ''; # note'')) = str ''; ''" by (simp add: scan_eval)
  have r4: "fst (py_loop init_state (str ''; # note'')) = str ''; ''" by (simp add: scan_eval)
  have l: "unix_newlines (c_dquote # str ''http://a.b/*#--'' @ c_dquote # str ''; # note'') =
             c_dquote # str ''http://a.b/*#--'' @ c_dquote # str ''; # note''"
    by (simp add: scan_eval)
  have s: "split_nl (c_dquote # str ''http://a.b/*#--'' @ c_dquote # str ''; # note'') =
             [c_dquote # str ''http://a.b/*#--'' @ c_dquote # str ''; # note'']"
    by (simp add: scan_eval)
  from literal_survives[of init_state c_dquote "str ''http://a.b/*#--''"] n b
  have "\<And>rest. fst (c_like_loop init_state (c_dquote # str ''http://a.b/*#--'' @ c_dquote # rest)) =
           c_dquote # str ''http://a.b/*#--'' @ c_dquote # fst (c_like_loop init_state rest)"
    and "\<And>rest. fst (sql_loop init_state (c_dquote # str ''http://a.b/*#--'' @ c_dquote # rest)) =
           c_dquote # str ''http://a.b/*#--'' @ c_dquote # fst (sql_loop init_state rest)"
    and "\<And>rest. fst (hash_loop init_state (c_dquote # str ''http://a.b/*#--'' @ c_dquote # rest)) =
           c_dquote # str ''http://a.b/*#--'' @ c_dquote # fst (hash_loop init_state rest)"
    and "\<And>rest. fst (py_loop init_state (c_dquote # str ''http://a.b/*#--'' @ c_dquote # rest)) =
           c_dquote # str ''http://a.b/*#--'' @ c_dquote # fst (py_loop init_state rest)"
    by blast+
  then show ?thesis
    using n b r1 r2 r3 r4
    unfolding strip_c_like_comments_def strip_sql_comments_def strip_hash_line_comments_def
      strip_python_comments_def l s
    by simp
qed

text \<open>
  C2 as stated fails for the Python scanner with docstring stripping, which looks for
  triple quotes in the raw line before its literal-aware loop reads it: in a string that
  holds an escaped double quote followed by two more, the escaped quote is taken for
  the start of a triple-quoted region, the line is cut in front of it and the next line
  is dropped. Without docstring stripping the text is kept.
\<close>

theorem escape_protects_next_char_counterexample:
  "strip_python_comments (c_dquote # c_bslash # triple_dquote @ [c_nl] @ str ''x'') True =
     [c_dquote, c_bslash] \<and>
   strip_python_comments (c_dquote # c_bslash # triple_dquote @ [c_nl] @ str ''x'') False =
     c_dquote # c_bslash # triple_dquote @ [c_nl] @ str ''x''"
  by (simp add: scan_eval)

text \<open>
  C1 as stated fails for the HTML scanner, which is not literal-aware: a comment inside a
  string literal is removed.
\<close>

theorem literal_survives_counterexample:
  "strip_html_comments (c_dquote # str ''<!--a-->'' @ [c_dquote]) = [c_dquote, c_dquote]"
  by (simp add: scan_eval)

lemma c_like_unterminated:
  assumes n: "normal_mode st" and q: "q = c_dquote \<or> q = c_btick \<or> q = c_squote"
    and b: "unterminated_body q body"
  shows "fst (c_like_loop st (q # body)) = q # body"
proof -
  from b obtain e where e: "body_end q False body = Some e" by (auto simp: unterminated_body_def)
  from q consider "q = c_dquote \<or> q = c_btick" | "q = c_squote" by blast
  then show ?thesis
  proof cases
    case 1
    let ?s = "st\<lparr>in_str := True, quote := [q]\<rparr>"
    note o = normal_open_str[OF n, of q]
    from e have be: "body_end q (escape ?s) body = Some e" by (simp add: o(6))
    have 1: "c_like_loop st (q # body) = emit q (c_like_loop ?s (body @ []))"
      using n 1 by (auto simp: normal_mode_def Let_def)
    show ?thesis unfolding 1 c_like_in_str_body[OF o(1,2,3,4,5) be, of "[]"] by simp
  next
    case 2
    let ?s = "st\<lparr>in_char := True\<rparr>"
    note o = normal_open_char[OF n]
    from e have be: "body_end c_squote (escape ?s) body = Some e" by (simp add: o(5) 2)
    have 1: "c_like_loop st (q # body) = emit q (c_like_loop ?s (body @ []))"
      using n 2 by (auto simp: normal_mode_def Let_def)
    show ?thesis unfolding 1 c_like_in_char_body[OF o(1,2,3,4) be, of "[]"] by simp
  qed
qed

lemma sql_unterminated:
  assumes n: "normal_mode st" and q: "q = c_squote \<or> q = c_dquote"
    and b: "unterminated_body q body"
  shows "fst (sql_loop st (q # body)) = q # body"
proof -
  from b obtain e where e: "body_end q False body = Some e" by (auto simp: unterminated_body_def)
  let ?s = "st\<lparr>in_str := True, quote := [q]\<rparr>"
  note o = normal_open_str[OF n, of q]
  from e have be: "body_end q (escape ?s) body = Some e" by (simp add: o(6))
  have 1: "sql_loop st (q # body) = emit q (sql_loop ?s (body @ []))"
    using n q by (auto simp: normal_mode_def Let_def)
  show ?thesis unfolding 1 sql_in_str_body[OF o(1,4,5) be, of "[]"] by simp
qed

lemma html_unterminated:
  assumes "str_find html_close rest = None"
  shows "strip_html_comments (html_open @ rest) = html_open @ rest"
proof -
  have 1: "strip_html_comments (html_open @ rest) = 60 # strip_html_comments (str ''!--'' @ rest)"
    using assms by (simp add: html_open_def str_def match_at_def)
  have 2: "strip_html_comments (str ''!--'' @ rest) = 33 # strip_html_comments (str ''--'' @ rest)"
    by (simp add: html_open_def str_def match_at_def)
  have 3: "strip_html_comments (str ''--'' @ rest) = 45 # strip_html_comments (str ''-'' @ rest)"
    by (simp add: html_open_def str_def match_at_def)
  have 4: "strip_html_comments (str ''-'' @ rest) = 45 # strip_html_comments rest"
    by (simp add: html_open_def str_def match_at_def)
  show ?thesis unfolding 1 2 3 4 html_no_close[OF assms] by (simp add: html_open_def str_def)
qed

text \<open>
  C6, as the code has it: in the C-like and the SQL scanner a block-comment opener met
  outside every comment and literal and never closed drops the rest of the input, and
  an unterminated literal is emitted verbatim to the end of the input; the HTML scanner
  keeps an opener that no \<open>-->\<close> follows, and the rest of the input with it.
\<close>

theorem malformed_input_degrades:
  "(normal_mode st \<and> str_find block_close rest = None \<longrightarrow>
      fst (c_like_loop st (c_slash # c_star # rest)) = [] \<and>
      fst (sql_loop st (c_slash # c_star # rest)) = []) \<and>
   (normal_mode st \<and> unterminated_body q body \<longrightarrow>
      ((q = c_dquote \<or> q = c_btick \<or> q = c_squote) \<longrightarrow>
         fst (c_like_loop st (q # body)) = q # body) \<and>
      ((q = c_squote \<or> q = c_dquote) \<longrightarrow>
         fst (sql_loop st (q # body)) = q # body)) \<and>
   (str_find html_close rest = None \<longrightarrow>
      strip_html_comments (html_open @ rest) = html_open @ rest)"
proof (intro conjI impI)
  assume a: "normal_mode st \<and> str_find block_close rest = None"
  then have n: "\<not> in_line st" "\<not> in_block st" "\<not> in_str st" "\<not> in_char st"
    and r: "str_find block_close rest = None"
    by (simp_all add: normal_mode_def)
  have "c_like_loop st (c_slash # c_star # rest) = c_like_loop (st\<lparr>in_block := True\<rparr>) rest"
    using n by (simp add: peek_def)
  then show "fst (c_like_loop st (c_slash # c_star # rest)) = []"
    using c_like_in_block_rest[of "st\<lparr>in_block := True\<rparr>" rest] n r by simp
  have "sql_loop st (c_slash # c_star # rest) = sql_loop (st\<lparr>in_block := True\<rparr>) rest"
    using n by (simp add: peek_def)
  then show "fst (sql_loop st (c_slash # c_star # rest)) = []"
    using sql_in_block_rest[of "st\<lparr>in_block := True\<rparr>" rest] r by simp
next
  assume a: "normal_mode st \<and> unterminated_body q body"
  then have n: "normal_mode st" and b: "unterminated_body q body" by simp_all
  {
    assume q: "q = c_dquote \<or> q = c_btick \<or> q = c_squote"
    show "fst (c_like_loop st (q # body)) = q # body" by (rule c_like_unterminated[OF n q b])
  }
  {
    assume q: "q = c_squote \<or> q = c_dquote"
    show "fst (sql_loop st (q # body)) = q # body" by (rule sql_unterminated[OF n q b])
  }
next
  assume "str_find html_close rest = None"
  then show "strip_html_comments (html_open @ rest) = html_open @ rest" by (rule html_unterminated)
qed

text \<open>An unclosed block comment, an unclosed string and an unclosed HTML comment.\<close>

theorem malformed_input_degrades_witness:
  "normal_mode init_state \<and> str_find block_close (str '' never closed * /'') = None \<and>
   unterminated_body c_dquote (str ''open // and /* on'') \<and>
   str_find html_close (str '' a -> b'') = None \<and>
   strip_c_like_comments (str ''/* never closed * /'') = [] \<and>
   strip_sql_comments (str ''/* never closed * /'') = [] \<and>
   strip_c_like_comments (c_dquote # str ''open // and /* on'') = c_dquote # str ''open // and /* on'' \<and>
   strip_sql_comments (c_dquote # str ''open // and /* on'') = c_dquote # str ''open // and /* on'' \<and>
   strip_html_comments (str ''<!-- a -> b'') = str ''<!-- a -> b''"
proof -
  have n: "normal_mode init_state" by (rule normal_init)
  have r: "str_find block_close (str '' never closed * /'') = None" by (simp add: scan_eval)
  have b: "unterminated_body c_dquote (str ''open // and /* on'')" by (simp add: scan_eval)
  have h: "str_find html_close (str '' a -> b'') = None" by (simp add: scan_eval)
  have e1: "str ''/* never closed * /'' = c_slash # c_star # str '' never closed * /''"
    and e2: "str ''<!-- a -> b'' = html_open @ str '' a -> b''"
    by (simp_all add: str_def html_open_def)
  from malformed_input_degrades[of init_state "str '' never closed * /''" c_dquote "str ''open // and /* on''"]
    malformed_input_degrades[of init_state "str '' a -> b''" c_dquote "str ''open // and /* on''"]
    n r b h
  show ?thesis
    unfolding strip_c_like_comments_def strip_sql_comments_def e1 e2 by simp
qed

text \<open>
  C6 as stated fails for the HTML scanner: the text behind an unterminated \<open><!--\<close> is
  kept, not dropped.
\<close>

theorem malformed_input_degrades_counterexample:
  "strip_html_comments (str ''a<!--b'') = str ''a<!--b'' \<and> strip_html_comments (str ''a<!--b'') \<noteq> str ''a''"
  by (simp add: scan_eval)

text \<open>
  C4: a triple-quoted string that opens and closes on one line. The scanner cuts the
  line at the opening delimiter and stays inside the region: the text behind the closing
  delimiter and the next line are lost.
\<close>

theorem py_one_line_triple_quote:
  "strip_python_comments (triple_squote @ str ''a'' @ triple_squote @ str '' x'' @ [c_nl] @ str ''y'') True = []"
  by (simp add: scan_eval)

text \<open>
  The sibling path: when the region closes on a later line, the text behind the closing
  delimiter is kept.
\<close>

lemma py_multi_line_triple_quote:
  "strip_python_comments
     (str ''a'' @ [c_nl] @ triple_squote @ str ''doc'' @ [c_nl] @ str ''more'' @ triple_squote @
      str '' b'' @ [c_nl] @ str ''c'') True =
   str ''a'' @ [c_nl] @ [c_nl] @ str '' b'' @ [c_nl] @ str ''c''"
  by (simp add: scan_eval)

text \<open>
  Two limits of the per-line scanners. With docstring stripping the Python scanner cuts a
  line at the first triple quote before its loop reads the line, inside a string literal
  too; and both per-line scanners forget an open string at the end of the line.
\<close>

lemma py_triple_quote_in_literal:
  "strip_python_comments (str ''x = '' @ [c_dquote] @ triple_squote @ [c_dquote] @ str '' + y'') True =
     str ''x = '' @ [c_dquote] \<and>
   strip_python_comments (str ''x = '' @ [c_dquote] @ triple_squote @ [c_dquote] @ str '' + y'') False =
     str ''x = '' @ [c_dquote] @ triple_squote @ [c_dquote] @ str '' + y''"
  by (simp add: scan_eval)

lemma hash_literal_across_lines:
  "strip_hash_line_comments ([c_dquote] @ str ''a'' @ [c_nl] @ str ''#b'' @ [c_dquote]) =
     [c_dquote] @ str ''a'' @ [c_nl]"
  by (simp add: scan_eval)

section \<open>Idempotence\<close>

lemma split_nl_nonempty [simp]: "split_nl s \<noteq> []"
  by (induction s) (auto split: list.splits)

lemma split_nl_Cons:
  "split_nl (c # cs) = (if c = c_nl then [] # split_nl cs else (c # hd (split_nl cs)) # tl (split_nl cs))"
  using split_nl_nonempty[of cs] by (cases "split_nl cs") auto

lemma join_nl_Cons: "ls \<noteq> [] \<Longrightarrow> join_nl (l # ls) = l @ c_nl # join_nl ls"
  by (cases ls) simp_all

lemma join_split_nl: "join_nl (split_nl s) = s"
proof (induction s)
  case Nil
  then show ?case by simp
next
  case (Cons c cs)
  obtain l ls where s: "split_nl cs = l # ls" using split_nl_nonempty[of cs] by (cases "split_nl cs") auto
  show ?case
  proof (cases "c = c_nl")
    case True
    with Cons show ?thesis by (simp add: join_nl_Cons)
  next
    case False
    with Cons s show ?thesis by (cases ls) auto
  qed
qed

lemma split_nl_no_nl: "c_nl \<notin> set s \<Longrightarrow> split_nl s = [s]"
  by (induction s) (auto simp: split_nl_Cons)

lemma split_nl_append_line:
  "c_nl \<notin> set l \<Longrightarrow> split_nl (l @ c_nl # s) = l # split_nl s"
  by (induction l) (auto simp: split_nl_Cons)

lemma split_join_nl:
  "ls \<noteq> [] \<Longrightarrow> \<forall>l \<in> set ls. c_nl \<notin> set l \<Longrightarrow> split_nl (join_nl ls) = ls"
proof (induction ls)
  case Nil
  then show ?case by simp
next
  case (Cons l ls)
  show ?case
  proof (cases "ls = []")
    case True
    with Cons.prems show ?thesis by (simp add: split_nl_no_nl)
  next
    case False
    with Cons show ?thesis by (simp add: join_nl_Cons split_nl_append_line)
  qed
qed

lemma split_nl_lines_no_nl: "l \<in> set (split_nl s) \<Longrightarrow> c_nl \<notin> set l"
proof (induction s arbitrary: l)
  case Nil
  then show ?case by simp
next
  case (Cons c cs)
  obtain k ks where s: "split_nl cs = k # ks" using split_nl_nonempty[of cs] by (cases "split_nl cs") auto
  from Cons s show ?case by (auto split: if_splits)
qed

lemma split_nl_lines_subset: "l \<in> set (split_nl s) \<Longrightarrow> set l \<subseteq> set s"
proof (induction s arbitrary: l)
  case Nil
  then show ?case by simp
next
  case (Cons c cs)
  obtain k ks where s: "split_nl cs = k # ks" using split_nl_nonempty[of cs] by (cases "split_nl cs") auto
  from Cons s show ?case by (fastforce split: if_splits)
qed

lemma set_join_nl: "set (join_nl ls) \<subseteq> \<Union>(set ` set ls) \<union> {c_nl}"
  by (induction ls rule: join_nl.induct) auto

lemma replace_absent: "a \<notin> set s \<Longrightarrow> replace (a # as) new s = s"
proof (induction s)
  case Nil
  then show ?case by simp
next
  case (Cons c cs)
  then show ?case by auto
qed

lemma replace_single_removes: "a \<noteq> b \<Longrightarrow> a \<notin> set (replace [a] [b] s)"
  by (induction s) auto

lemma replace_delete_removes: "a \<notin> set (replace [a] [] s)"
  by (induction s) auto

lemma set_replace: "set (replace old new s) \<subseteq> set s \<union> set new"
proof (induction old new s rule: replace.induct)
  case (3 a as new c cs)
  show ?case
  proof (cases "take (Suc (length as)) (c # cs) = a # as")
    case True
    from "3.IH"(1)[OF True] have "set (replace (a # as) new (drop (length as) cs)) \<subseteq> set cs \<union> set new"
      using set_drop_subset[of "length as" cs] by blast
    with True show ?thesis by auto
  next
    case False
    with "3.IH"(2)[OF False] show ?thesis by auto
  qed
qed simp_all

lemma unix_newlines_no_cr: "c_cr \<notin> set (unix_newlines s)"
  unfolding unix_newlines_def by (rule replace_single_removes) simp

lemma unix_newlines_id: "c_cr \<notin> set s \<Longrightarrow> unix_newlines s = s"
  unfolding unix_newlines_def by (simp add: replace_absent)

lemma set_unix_newlines: "set (unix_newlines s) \<subseteq> set s \<union> {c_nl}"
  unfolding unix_newlines_def
  using set_replace[of "[c_cr]" "[c_nl]" "replace [c_cr, c_nl] [c_nl] s"]
    set_replace[of "[c_cr, c_nl]" "[c_nl]" s] by auto

lemma hash_loop_subset: "set (fst (hash_loop st l)) \<subseteq> set l"
  by (induction l arbitrary: st) auto

lemma hash_loop_idem:
  "fst (hash_loop st (fst (hash_loop st l))) = fst (hash_loop st l)"
  by (induction l arbitrary: st) auto

lemma strip_hash_idem:
  "strip_hash_line_comments (strip_hash_line_comments s) = strip_hash_line_comments s"
proof -
  define ls where "ls = split_nl (unix_newlines s)"
  define H where "H = (\<lambda>line. fst (hash_loop init_state line))"
  define out where "out = join_nl (map H ls)"
  have o: "strip_hash_line_comments s = out"
    by (simp add: strip_hash_line_comments_def out_def ls_def H_def)
  have ne: "map H ls \<noteq> []" by (simp add: ls_def)
  have lines: "\<forall>l \<in> set ls. c_nl \<notin> set l \<and> c_cr \<notin> set l"
    using split_nl_lines_no_nl[of _ "unix_newlines s"] split_nl_lines_subset[of _ "unix_newlines s"]
      unix_newlines_no_cr[of s]
    unfolding ls_def by blast
  have Hl: "\<forall>l \<in> set (map H ls). c_nl \<notin> set l \<and> c_cr \<notin> set l"
    using lines hash_loop_subset[of init_state] unfolding H_def by fastforce
  have "c_cr \<notin> set out"
    using set_join_nl[of "map H ls"] Hl unfolding out_def by fastforce
  then have u: "unix_newlines out = out" by (rule unix_newlines_id)
  have sp: "split_nl out = map H ls"
    unfolding out_def using split_join_nl[OF ne] Hl by blast
  have mm: "map H (map H ls) = map H ls"
    by (induction ls) (simp_all add: H_def hash_loop_idem)
  have "strip_hash_line_comments out = out"
    unfolding strip_hash_line_comments_def u sp H_def[symmetric] mm by (simp only: out_def)
  then show ?thesis by (simp add: o)
qed

lemma py_lines_no_docstrings:
  "py_lines False tr ls = map (\<lambda>line. fst (hash_loop init_state line)) ls"
  by (induction ls) (simp_all add: py_loop_eq_hash_loop)

lemma strip_python_no_docstrings:
  "strip_python_comments s False = strip_hash_line_comments s"
  by (simp add: strip_python_comments_def strip_hash_line_comments_def py_lines_no_docstrings)

lemma c_like_peek_out:
  assumes "no_mode st" "peek rest \<noteq> Some c_slash" "peek rest \<noteq> Some c_star"
  shows "peek (fst (c_like_loop st rest)) \<noteq> Some c_slash \<and> peek (fst (c_like_loop st rest)) \<noteq> Some c_star"
proof (cases rest)
  case Nil
  then show ?thesis by (simp add: peek_def)
next
  case (Cons c r)
  with assms(2,3) have "c \<noteq> c_slash" "c \<noteq> c_star" by (simp_all add: peek_def)
  with assms(1) Cons show ?thesis by (simp add: no_mode_def Let_def peek_def)
qed

lemma c_like_idem_gen:
  assumes "in_line st \<or> in_block st \<longrightarrow> \<not> in_str st \<and> \<not> in_char st"
  shows "fst (c_like_loop (leave_comment st) (fst (c_like_loop st t))) = fst (c_like_loop st t)"
  using assms
proof (induction "length t" arbitrary: st t rule: less_induct)
  case less
  note ok = less.prems
  show ?case
  proof (cases t)
    case Nil
    then show ?thesis by simp
  next
    case (Cons ch rest)
    have IH: "fst (c_like_loop (leave_comment st') (fst (c_like_loop st' t'))) = fst (c_like_loop st' t')"
      if "length t' \<le> length rest" "in_line st' \<or> in_block st' \<longrightarrow> \<not> in_str st' \<and> \<not> in_char st'"
      for st' t'
      using less.hyps[of t' st'] that Cons by simp
    have tl_len: "length (tl rest) \<le> length rest" by simp
    consider (line) "in_line st"
      | (block) "\<not> in_line st" "in_block st"
      | (lit) "\<not> in_line st" "\<not> in_block st" "in_str st \<or> in_char st"
      | (normal) "no_mode st"
      by (auto simp: no_mode_def)
    then show ?thesis
    proof cases
      case line
      with ok have nm: "no_mode (leave_comment st)" by (simp add: no_mode_def leave_comment_def)
      show ?thesis
      proof (cases "ch = c_nl")
        case True
        let ?s = "st\<lparr>in_line := False\<rparr>"
        have 1: "c_like_loop st (ch # rest) = emit ch (c_like_loop ?s rest)"
          using line True by simp
        have l: "leave_comment ?s = leave_comment st" by (simp add: leave_comment_def)
        have 2: "c_like_loop (leave_comment st) (ch # X) = emit ch (c_like_loop (leave_comment st) X)" for X
          using nm True by (simp add: no_mode_def Let_def)
        from IH[of rest ?s] ok line have "fst (c_like_loop (leave_comment st) (fst (c_like_loop ?s rest))) = fst (c_like_loop ?s rest)"
          by (simp add: l)
        then show ?thesis unfolding Cons 1 by (simp add: 2 del: c_like_loop.simps)
      next
        case False
        have 1: "c_like_loop st (ch # rest) = c_like_loop st rest"
          using line False by simp
        from IH[of rest st] ok show ?thesis unfolding Cons 1 by simp
      qed
    next
      case block
      show ?thesis
      proof (cases "ch = c_star \<and> peek rest = Some c_slash")
        case True
        let ?s = "st\<lparr>in_block := False\<rparr>"
        have 1: "c_like_loop st (ch # rest) = c_like_loop ?s (tl rest)"
          using block True by (simp add: Let_def)
        have l: "leave_comment ?s = leave_comment st" by (simp add: leave_comment_def)
        from IH[of "tl rest" ?s] ok block show ?thesis unfolding Cons 1 by (simp add: l)
      next
        case False
        have 1: "c_like_loop st (ch # rest) = c_like_loop st rest"
          using block False by (auto simp: Let_def)
        from IH[of rest st] ok show ?thesis unfolding Cons 1 by simp
      qed
    next
      case lit
      then have l: "leave_comment st = st" by (simp add: leave_comment_def)
      define s' where "s' = (if escape st then st\<lparr>escape := False\<rparr>
           else if ch = c_bslash then st\<lparr>escape := True\<rparr>
           else if in_str st \<and> [ch] = quote st then st\<lparr>in_str := False\<rparr>
           else if in_char st \<and> ch = c_squote then st\<lparr>in_char := False\<rparr>
           else st)"
      have 1: "c_like_loop st (ch # X) = emit ch (c_like_loop s' X)" for X
        using lit by (simp add: Let_def s'_def)
      have f: "\<not> in_line s'" "\<not> in_block s'" using lit by (simp_all add: s'_def)
      then have l': "leave_comment s' = s'" by (simp add: leave_comment_def)
      from IH[of rest s'] f have "fst (c_like_loop s' (fst (c_like_loop s' rest))) = fst (c_like_loop s' rest)"
        by (simp add: l')
      then show ?thesis unfolding Cons l 1 by (simp add: 1 del: c_like_loop.simps)
    next
      case normal
      then have l: "leave_comment st = st" by (simp add: leave_comment_def no_mode_def)
      note n = normal[unfolded no_mode_def]
      consider (lc) "ch = c_slash" "peek rest = Some c_slash"
        | (bc) "ch = c_slash" "peek rest = Some c_star"
        | (str) "ch = c_dquote \<or> ch = c_btick"
        | (chr) "ch = c_squote"
        | (slash) "ch = c_slash" "peek rest \<noteq> Some c_slash" "peek rest \<noteq> Some c_star"
        | (other) "ch \<noteq> c_slash" "ch \<noteq> c_dquote" "ch \<noteq> c_btick" "ch \<noteq> c_squote"
        by blast
      then show ?thesis
      proof cases
        case lc
        let ?s = "st\<lparr>in_line := True\<rparr>"
        have 1: "c_like_loop st (ch # rest) = c_like_loop ?s (tl rest)"
          using n lc by (simp add: Let_def)
        have l2: "leave_comment ?s = st" using n by (simp add: leave_comment_def)
        from IH[of "tl rest" ?s] n show ?thesis unfolding Cons 1 l by (simp add: l2)
      next
        case bc
        let ?s = "st\<lparr>in_block := True\<rparr>"
        have 1: "c_like_loop st (ch # rest) = c_like_loop ?s (tl rest)"
          using n bc by (simp add: Let_def)
        have l2: "leave_comment ?s = st" using n by (simp add: leave_comment_def)
        from IH[of "tl rest" ?s] n show ?thesis unfolding Cons 1 l by (simp add: l2)
      next
        case str
        let ?s = "st\<lparr>in_str := True, quote := [ch]\<rparr>"
        have 1: "c_like_loop st (ch # X) = emit ch (c_like_loop ?s X)" for X
          using n str by (auto simp: Let_def)
        have l2: "leave_comment ?s = ?s" using n by (simp add: leave_comment_def)
        from IH[of rest ?s] n have "fst (c_like_loop ?s (fst (c_like_loop ?s rest))) = fst (c_like_loop ?s rest)"
          by (simp add: l2)
        then show ?thesis unfolding Cons l 1 by (simp add: 1 del: c_like_loop.simps)
      next
        case chr
        let ?s = "st\<lparr>in_char := True\<rparr>"
        have 1: "c_like_loop st (ch # X) = emit ch (c_like_loop ?s X)" for X
          using n chr by (auto simp: Let_def)
        have l2: "leave_comment ?s = ?s" using n by (simp add: leave_comment_def)
        from IH[of rest ?s] n have "fst (c_like_loop ?s (fst (c_like_loop ?s rest))) = fst (c_like_loop ?s rest)"
          by (simp add: l2)
        then show ?thesis unfolding Cons l 1 by (simp add: 1 del: c_like_loop.simps)
      next
        case slash
        have 1: "c_like_loop st (ch # X) = emit ch (c_like_loop st X)"
          if "peek X \<noteq> Some c_slash" "peek X \<noteq> Some c_star" for X
          using n slash(1) that by (simp add: Let_def)
        from c_like_peek_out[OF normal slash(2,3)]
        have p: "peek (fst (c_like_loop st rest)) \<noteq> Some c_slash" "peek (fst (c_like_loop st rest)) \<noteq> Some c_star"
          by simp_all
        from IH[of rest st] n have "fst (c_like_loop st (fst (c_like_loop st rest))) = fst (c_like_loop st rest)"
          by (simp add: l)
        then show ?thesis unfolding Cons l 1[OF slash(2,3)] by (simp add: 1[OF p] del: c_like_loop.simps)
      next
        case other
        have 1: "c_like_loop st (ch # X) = emit ch (c_like_loop st X)" for X
          using n other by (simp add: Let_def)
        from IH[of rest st] n have "fst (c_like_loop st (fst (c_like_loop st rest))) = fst (c_like_loop st rest)"
          by (simp add: l)
        then show ?thesis unfolding Cons l 1 by (simp add: 1 del: c_like_loop.simps)
      qed
    qed
  qed
qed

lemma strip_c_like_idem:
  "strip_c_like_comments (strip_c_like_comments s) = strip_c_like_comments s"
proof -
  have "leave_comment init_state = init_state" by (simp add: leave_comment_def init_state_def)
  with c_like_idem_gen[of init_state s] show ?thesis
    by (simp add: strip_c_like_comments_def init_state_def)
qed

lemma expandtabs_no_tab: "c_tab \<notin> set (expandtabs t col s)"
  by (induction t col s rule: expandtabs.induct) (auto simp: Let_def)

lemma set_expandtabs: "set (expandtabs t col s) \<subseteq> set s \<union> {c_space}"
  by (induction t col s rule: expandtabs.induct) (auto simp: Let_def)

lemma expandtabs_id: "c_tab \<notin> set s \<Longrightarrow> expandtabs t col s = s"
  by (induction s arbitrary: col) auto

lemma set_rstrip: "set (rstrip s) \<subseteq> set s"
  unfolding rstrip_def using set_dropWhileD[of _ is_space "rev s"] by auto

lemma set_lstrip: "set (lstrip s) \<subseteq> set s"
  unfolding lstrip_def using set_dropWhileD[of _ is_space s] by auto

lemma set_strip: "set (strip s) \<subseteq> set s"
  unfolding strip_def using set_lstrip[of "rstrip s"] set_rstrip[of s] by blast

lemma set_collapse: "set (collapse c b L) \<subseteq> set L"
  by (induction c b L rule: collapse.induct) auto

lemma length_collapse: "length (collapse c b L) \<le> length L"
  by (induction c b L rule: collapse.induct) auto

lemma collapse_saturated: "c \<le> b \<Longrightarrow> c \<le> b' \<Longrightarrow> collapse c b L = collapse c b' L"
proof (induction L arbitrary: b b')
  case Nil
  then show ?case by simp
next
  case (Cons l ls)
  from Cons.prems have "c \<le> b + 1" "c \<le> b' + 1" by simp_all
  from Cons.IH[OF this] Cons.prems show ?case by simp
qed

lemma collapse_idem: "collapse c b (collapse c b L) = collapse c b L"
proof (induction c b L rule: collapse.induct)
  case (1 c b)
  then show ?case by simp
next
  case (2 c b ln lns)
  show ?case
  proof (cases "ln = []")
    case False
    with 2 show ?thesis by simp
  next
    case True
    show ?thesis
    proof (cases "b + 1 \<le> c")
      case k: True
      with 2 True show ?thesis by simp
    next
      case d: False
      then have "collapse c b (collapse c (b + 1) lns) = collapse c (b + 1) (collapse c (b + 1) lns)"
        by (intro collapse_saturated) simp_all
      with 2 True d show ?thesis by simp
    qed
  qed
qed

lemma collapse_fix_Cons_blank:
  assumes "collapse c b ([] # K) = [] # K"
  shows "b + 1 \<le> c" and "collapse c (b + 1) K = K"
proof -
  show k: "b + 1 \<le> c"
  proof (rule ccontr)
    assume "\<not> b + 1 \<le> c"
    with assms have "collapse c (b + 1) K = [] # K" by simp
    then have "length (collapse c (b + 1) K) = Suc (length K)" by simp
    with length_collapse[of c "b + 1" K] show False by simp
  qed
  with assms show "collapse c (b + 1) K = K" by simp
qed

lemma collapse_fix_dropWhile:
  "collapse c b K = K \<Longrightarrow> collapse c b' (dropWhile (\<lambda>l. l = []) K) = dropWhile (\<lambda>l. l = []) K"
proof (induction K arbitrary: b)
  case Nil
  then show ?case by simp
next
  case (Cons l ls)
  show ?case
  proof (cases "l = []")
    case True
    from collapse_fix_Cons_blank(2)[OF Cons.prems[unfolded True]] Cons.IH True show ?thesis by simp
  next
    case False
    with Cons.prems show ?thesis by simp
  qed
qed

lemma collapse_fix_take:
  "collapse c b K = K \<Longrightarrow> collapse c b (take n K) = take n K"
proof (induction K arbitrary: b n)
  case Nil
  then show ?case by simp
next
  case (Cons l ls)
  show ?case
  proof (cases n)
    case 0
    then show ?thesis by simp
  next
    case (Suc m)
    show ?thesis
    proof (cases "l = []")
      case True
      from collapse_fix_Cons_blank[OF Cons.prems[unfolded True]] Cons.IH[of "b + 1" m] True Suc
      show ?thesis by simp
    next
      case False
      with Cons.prems Cons.IH[of 0 m] Suc show ?thesis by simp
    qed
  qed
qed

lemma collapse_snoc_blank:
  "K \<noteq> [] \<Longrightarrow> last K \<noteq> [] \<Longrightarrow>
     collapse c b (K @ [[]]) = collapse c b K @ (if 1 \<le> c then [[]] else [])"
proof (induction K arbitrary: b)
  case Nil
  then show ?case by simp
next
  case (Cons l ls)
  show ?case
  proof (cases "ls = []")
    case True
    with Cons.prems show ?thesis by simp
  next
    case False
    with Cons.prems have "last ls \<noteq> []" by simp
    from Cons.IH[OF False this] show ?thesis by simp
  qed
qed

lemma rev_dropWhile_rev_take:
  "rev (dropWhile P (rev K)) = take (length (dropWhile P (rev K))) K"
proof -
  have "rev K = takeWhile P (rev K) @ dropWhile P (rev K)" by simp
  then have "K = rev (dropWhile P (rev K)) @ rev (takeWhile P (rev K))"
    by (metis rev_append rev_rev_ident)
  then have "take (length (rev (dropWhile P (rev K)))) K = rev (dropWhile P (rev K))"
    by (metis append_eq_conv_conj)
  then show ?thesis by simp
qed

lemma join_nl_snoc: "ks \<noteq> [] \<Longrightarrow> join_nl (ks @ [l]) = join_nl ks @ c_nl # l"
  by (induction ks rule: join_nl.induct) auto

lemma rstrip_snoc_space: "is_space c \<Longrightarrow> rstrip (s @ [c]) = rstrip s"
  by (simp add: rstrip_def)

lemma rstrip_fixed_nonspace: "rstrip l = l \<Longrightarrow> l \<noteq> [] \<Longrightarrow> \<not> is_space (last l)"
  using rstrip_last[of l] by auto

lemma is_space_nl [simp]: "is_space c_nl"
  by (simp add: is_space_def)

lemma rstrip_join:
  "\<forall>l \<in> set K. rstrip l = l \<Longrightarrow>
     rstrip (join_nl K) = join_nl (rev (dropWhile (\<lambda>l. l = []) (rev K)))"
proof (induction K rule: rev_induct)
  case Nil
  then show ?case by (simp add: rstrip_def)
next
  case (snoc l ks)
  then have IH: "rstrip (join_nl ks) = join_nl (rev (dropWhile (\<lambda>l. l = []) (rev ks)))"
    and rl: "rstrip l = l" by simp_all
  show ?case
  proof (cases "l = []")
    case True
    show ?thesis
    proof (cases "ks = []")
      case k: True
      with True show ?thesis by (simp add: rstrip_def)
    next
      case False
      then have "join_nl (ks @ [l]) = join_nl ks @ [c_nl]" using True by (simp add: join_nl_snoc)
      then have "rstrip (join_nl (ks @ [l])) = rstrip (join_nl ks)" by (simp add: rstrip_snoc_space)
      with IH True show ?thesis by simp
    qed
  next
    case False
    from rstrip_fixed_nonspace[OF rl False] have ns: "\<not> is_space (last l)" .
    have "join_nl (ks @ [l]) \<noteq> []" using False by (cases "ks = []") (simp_all add: join_nl_snoc)
    moreover have "last (join_nl (ks @ [l])) = last l"
      using False by (cases "ks = []") (auto simp: join_nl_snoc)
    ultimately have "rstrip (join_nl (ks @ [l])) = join_nl (ks @ [l])"
      using ns by (intro rstrip_id) simp
    with False show ?thesis by simp
  qed
qed

lemma lstrip_append_nonspace_elem:
  "\<exists>x \<in> set k. \<not> is_space x \<Longrightarrow> lstrip (k @ r) = lstrip k @ r"
  unfolding lstrip_def by (auto simp: dropWhile_append1)

lemma lstrip_join:
  "\<forall>l \<in> set K. rstrip l = l \<Longrightarrow>
     lstrip (join_nl K) =
       (case dropWhile (\<lambda>l. l = []) K of [] \<Rightarrow> [] | k # ks \<Rightarrow> join_nl (lstrip k # ks))"
proof (induction K)
  case Nil
  then show ?case by (simp add: lstrip_def)
next
  case (Cons l ls)
  then have IH: "lstrip (join_nl ls) =
       (case dropWhile (\<lambda>l. l = []) ls of [] \<Rightarrow> [] | k # ks \<Rightarrow> join_nl (lstrip k # ks))"
    and rl: "rstrip l = l" by simp_all
  show ?case
  proof (cases "l = []")
    case True
    show ?thesis
    proof (cases "ls = []")
      case k: True
      with True show ?thesis by (simp add: lstrip_def)
    next
      case False
      then have "join_nl (l # ls) = c_nl # join_nl ls" using True by (simp add: join_nl_Cons)
      then have "lstrip (join_nl (l # ls)) = lstrip (join_nl ls)" by (simp add: lstrip_def)
      with IH True show ?thesis by simp
    qed
  next
    case False
    from rstrip_fixed_nonspace[OF rl False] False have ex: "\<exists>x \<in> set l. \<not> is_space x"
      using last_in_set by blast
    show ?thesis
    proof (cases "ls = []")
      case True
      with False show ?thesis by simp
    next
      case nl: False
      then have "join_nl (l # ls) = l @ c_nl # join_nl ls" by (simp add: join_nl_Cons)
      then have "lstrip (join_nl (l # ls)) = lstrip l @ c_nl # join_nl ls"
        using lstrip_append_nonspace_elem[OF ex] by simp
      with False nl show ?thesis by (simp add: join_nl_Cons)
    qed
  qed
qed

lemma strip_join_rstrip:
  assumes "\<forall>l \<in> set K. rstrip l = l"
  shows "strip (join_nl K) = lstrip (join_nl (rev (dropWhile (\<lambda>l. l = []) (rev K))))"
  unfolding strip_def rstrip_join[OF assms] ..

lemma set_rev_dropWhile_rev: "set (rev (dropWhile P (rev K))) \<subseteq> set K"
  using set_dropWhileD[of _ P "rev K"] by auto

lemma strip_join:
  assumes "\<forall>l \<in> set K. rstrip l = l"
  shows "strip (join_nl K) = join_nl (trim_lines K)"
proof -
  define K1 where "K1 = rev (dropWhile (\<lambda>l. l = []) (rev K))"
  have "set K1 \<subseteq> set K" unfolding K1_def by (rule set_rev_dropWhile_rev)
  with assms have r1: "\<forall>l \<in> set K1. rstrip l = l" by blast
  have a: "strip (join_nl K) = lstrip (join_nl K1)" unfolding K1_def by (rule strip_join_rstrip[OF assms])
  have t: "trim_lines K = (case dropWhile (\<lambda>l. l = []) K1 of [] \<Rightarrow> [] | k # ks \<Rightarrow> lstrip k # ks)"
    by (simp add: trim_lines_def K1_def)
  show ?thesis
  proof (cases "dropWhile (\<lambda>l. l = []) K1")
    case Nil
    with lstrip_join[OF r1] a t show ?thesis by simp
  next
    case (Cons k ks)
    with lstrip_join[OF r1] a t show ?thesis by simp
  qed
qed

lemma rstrip_lstrip_fixed: "rstrip k = k \<Longrightarrow> rstrip (lstrip k) = lstrip k"
proof (cases "lstrip k = []")
  case True
  then show ?thesis by (simp add: rstrip_def)
next
  case False
  assume r: "rstrip k = k"
  from False have "k \<noteq> []" by (auto simp: lstrip_def)
  from rstrip_fixed_nonspace[OF r this] lstrip_last[OF False]
  have "\<not> is_space (last (lstrip k))" by simp
  then show ?thesis by (intro rstrip_id) simp
qed

lemma lstrip_nonblank: "rstrip k = k \<Longrightarrow> k \<noteq> [] \<Longrightarrow> lstrip k \<noteq> []"
proof -
  assume r: "rstrip k = k" and n: "k \<noteq> []"
  from rstrip_fixed_nonspace[OF r n] n have "\<exists>x \<in> set k. \<not> is_space x"
    using last_in_set by blast
  then show ?thesis unfolding lstrip_def by (simp add: dropWhile_eq_Nil_conv)
qed

lemma dropWhile_rev_last:
  "rev (dropWhile P (rev K)) \<noteq> [] \<Longrightarrow> \<not> P (last (rev (dropWhile P (rev K))))"
  using hd_dropWhile[of P "rev K"] by (simp add: last_rev)

lemma dropWhile_last: "dropWhile P K \<noteq> [] \<Longrightarrow> last (dropWhile P K) = last K"
  by (induction K) (auto split: if_splits)

lemma trim_lines_props:
  assumes r: "\<forall>l \<in> set K. rstrip l = l" and n: "\<forall>l \<in> set K. c_nl \<notin> set l"
    and c: "collapse cb 0 K = K" and t: "trim_lines K \<noteq> []"
  shows "\<forall>l \<in> set (trim_lines K). rstrip l = l"
    and "\<forall>l \<in> set (trim_lines K). c_nl \<notin> set l"
    and "collapse cb 0 (trim_lines K) = trim_lines K"
    and "last (trim_lines K) \<noteq> []"
    and "\<Union>(set ` set (trim_lines K)) \<subseteq> \<Union>(set ` set K)"
proof -
  define K1 where "K1 = rev (dropWhile (\<lambda>l. l = []) (rev K))"
  define K2 where "K2 = dropWhile (\<lambda>l. l = []) K1"
  have T: "trim_lines K = (case K2 of [] \<Rightarrow> [] | k # ks \<Rightarrow> lstrip k # ks)"
    by (simp add: trim_lines_def K1_def K2_def)
  with t obtain k ks where K2: "K2 = k # ks" by (cases K2) auto
  with T have T': "trim_lines K = lstrip k # ks" by simp
  have s1: "set K1 \<subseteq> set K" unfolding K1_def by (rule set_rev_dropWhile_rev)
  have s2: "set K2 \<subseteq> set K1" unfolding K2_def using set_dropWhileD[of _ "\<lambda>l. l = []" K1] by auto
  have kin: "k \<in> set K" "set ks \<subseteq> set K" using s1 s2 K2 by auto
  have kne: "k \<noteq> []" using hd_dropWhile[of "\<lambda>l. l = []" K1] K2 unfolding K2_def by auto
  have rk: "rstrip k = k" using r kin by blast
  show "\<forall>l \<in> set (trim_lines K). rstrip l = l"
    unfolding T' using rstrip_lstrip_fixed[OF rk] r kin by auto
  show "\<forall>l \<in> set (trim_lines K). c_nl \<notin> set l"
    unfolding T' using set_lstrip[of k] n kin by auto
  have "K1 = take (length (dropWhile (\<lambda>l. l = []) (rev K))) K"
    unfolding K1_def by (rule rev_dropWhile_rev_take)
  then have c1: "collapse cb 0 K1 = K1" using collapse_fix_take[OF c] by metis
  have c2: "collapse cb 0 K2 = K2" unfolding K2_def by (rule collapse_fix_dropWhile[OF c1])
  show "collapse cb 0 (trim_lines K) = trim_lines K"
    unfolding T' using c2 kne lstrip_nonblank[OF rk kne] by (simp add: K2)
  have K1ne: "K1 \<noteq> []" using K2 unfolding K2_def by auto
  then have l1: "last K1 \<noteq> []" unfolding K1_def by (rule dropWhile_rev_last)
  have "last K2 = last K1" unfolding K2_def using K2 by (intro dropWhile_last) (simp add: K2_def)
  with l1 have l2: "last (k # ks) \<noteq> []" by (simp add: K2)
  show "last (trim_lines K) \<noteq> []"
    unfolding T' using l2 lstrip_nonblank[OF rk kne] by (cases ks) auto
  show "\<Union>(set ` set (trim_lines K)) \<subseteq> \<Union>(set ` set K)"
    unfolding T' using set_lstrip[of k] kin by auto
qed

lemma rstrip_idem: "rstrip (rstrip s) = rstrip s"
  using rstrip_last[of s] by (intro rstrip_id) simp

lemma rstrip_Nil [simp]: "rstrip [] = []"
  by (simp add: rstrip_def)

lemma normalise_whitespace_Nil: "normalise_whitespace [] t c = []"
  by (simp add: normalise_whitespace_def strip_def lstrip_def)

lemma normalise_whitespace_fixed:
  assumes out: "out \<noteq> []" "strip out = out" "out = join_nl T"
    and T: "\<forall>l \<in> set T. rstrip l = l" "\<forall>l \<in> set T. c_nl \<notin> set l"
      "collapse c 0 T = T" "last T \<noteq> []"
    and ch: "c_bom \<notin> set out" "c_cr \<notin> set out" "c_tab \<notin> set out"
  shows "normalise_whitespace (out @ [c_nl]) t c = out @ [c_nl]"
proof -
  let ?x = "out @ [c_nl]"
  have Tne: "T \<noteq> []" using out(1,3) by auto
  have 1: "replace [c_bom] [] ?x = ?x" using ch(1) by (intro replace_absent) simp
  have 2: "replace [c_cr, c_nl] [c_nl] ?x = ?x" using ch(2) by (intro replace_absent) simp
  have 3: "replace [c_cr] [c_nl] ?x = ?x" using ch(2) by (intro replace_absent) simp
  have 4: "expandtabs t 0 ?x = ?x" using ch(3) by (intro expandtabs_id) simp
  have j: "join_nl (T @ [[]]) = ?x" using join_nl_snoc[OF Tne, of "[]"] out(3) by simp
  have "split_nl (join_nl (T @ [[]])) = T @ [[]]"
    using T(2) by (intro split_join_nl) auto
  then have 5: "split_nl ?x = T @ [[]]" by (simp only: j)
  have 6: "map rstrip (T @ [[]]) = T @ [[]]"
    using T(1) by (simp add: map_idI)
  have 7: "collapse c 0 (T @ [[]]) = T @ (if 1 \<le> c then [[]] else [])"
    using collapse_snoc_blank[OF Tne T(4), of c 0] T(3) by simp
  have 8: "strip (join_nl (T @ (if 1 \<le> c then [[]] else []))) = out"
  proof (cases "1 \<le> c")
    case True
    then show ?thesis using j strip_emit[OF out(1,2)] by simp
  next
    case False
    then show ?thesis using out(2,3) by simp
  qed
  show ?thesis
    unfolding normalise_whitespace_def Let_def 1 2 3 4 5 6 7 8 using out(1) by simp
qed

lemma normalise_whitespace_idem:
  "normalise_whitespace (normalise_whitespace s t c) t c = normalise_whitespace s t c"
proof -
  define A where "A = replace [c_bom] [] s"
  define B where "B = replace [c_cr] [c_nl] (replace [c_cr, c_nl] [c_nl] A)"
  define C where "C = expandtabs t 0 B"
  define L where "L = map rstrip (split_nl C)"
  define K where "K = collapse c 0 L"
  define out where "out = strip (join_nl K)"
  have N: "normalise_whitespace s t c = (if out \<noteq> [] then out @ [c_nl] else [])"
    by (simp add: normalise_whitespace_def Let_def A_def B_def C_def L_def K_def out_def)
  show ?thesis
  proof (cases "out = []")
    case True
    then show ?thesis by (simp add: N normalise_whitespace_Nil)
  next
    case False
    have KL: "set K \<subseteq> set L" unfolding K_def by (rule set_collapse)
    have rK: "\<forall>l \<in> set K. rstrip l = l"
      using KL by (auto simp: L_def rstrip_idem)
    have Lc: "\<forall>l \<in> set L. set l \<subseteq> set C \<and> c_nl \<notin> set l"
      unfolding L_def using set_rstrip split_nl_lines_subset[of _ C] split_nl_lines_no_nl[of _ C]
      by fastforce
    have nK: "\<forall>l \<in> set K. c_nl \<notin> set l" using KL Lc by blast
    have cK: "collapse c 0 K = K" unfolding K_def by (rule collapse_idem)
    have o: "out = join_nl (trim_lines K)" unfolding out_def by (rule strip_join[OF rK])
    with False have Tne: "trim_lines K \<noteq> []" by auto
    note P = trim_lines_props[OF rK nK cK Tne]
    have bA: "c_bom \<notin> set A" unfolding A_def by (rule replace_delete_removes)
    have sB: "set B \<subseteq> set A \<union> {c_nl}" and cB: "c_cr \<notin> set B"
      using set_unix_newlines[of A] unix_newlines_no_cr[of A]
      by (simp_all add: B_def unix_newlines_def)
    have sC: "set C \<subseteq> set B \<union> {c_space}" and tC: "c_tab \<notin> set C"
      unfolding C_def by (rule set_expandtabs, rule expandtabs_no_tab)
    have "\<Union>(set ` set K) \<subseteq> set C" using KL Lc by blast
    with P(5) have "\<Union>(set ` set (trim_lines K)) \<subseteq> set C" by blast
    with set_join_nl[of "trim_lines K"] have so: "set out \<subseteq> set C \<union> {c_nl}"
      unfolding o by blast
    have bB: "c_bom \<notin> set B" using sB bA by auto
    have bC: "c_bom \<notin> set C" and cC: "c_cr \<notin> set C" using sC bB cB by auto
    have ch: "c_bom \<notin> set out" "c_cr \<notin> set out" "c_tab \<notin> set out"
      using so bC cC tC by auto
    have st: "strip out = out" unfolding out_def by (rule strip_strip)
    from normalise_whitespace_fixed[OF False st o P(1,2,3,4) ch]
    show ?thesis using False by (simp add: N)
  qed
qed

text \<open>
  C5, as the code has it: the whitespace normaliser is idempotent for every tab width and
  every blank-line limit, so a normalised document is a fixed point; the C-like scanner,
  the hash-line scanner and the Python scanner without docstring stripping are
  idempotent too.
\<close>

theorem idempotent_operations:
  "normalise_whitespace (normalise_whitespace s t c) t c = normalise_whitespace s t c \<and>
   strip_c_like_comments (strip_c_like_comments s) = strip_c_like_comments s \<and>
   strip_hash_line_comments (strip_hash_line_comments s) = strip_hash_line_comments s \<and>
   strip_python_comments (strip_python_comments s False) False = strip_python_comments s False"
  by (simp only: normalise_whitespace_idem strip_c_like_idem strip_hash_idem
      strip_python_no_docstrings simp_thms)

text \<open>
  C5 as stated fails for the SQL scanner: removing the block comment of \<open>-/**/- x\<close>
  brings two dashes together, and the second pass takes them for a line comment.
\<close>

theorem idempotent_operations_counterexample:
  "strip_sql_comments (str ''-/**/- x'') = str ''-- x'' \<and>
   strip_sql_comments (strip_sql_comments (str ''-/**/- x'')) = [] \<and>
   strip_sql_comments (strip_sql_comments (str ''-/**/- x'')) \<noteq> strip_sql_comments (str ''-/**/- x'')"
  by (simp add: scan_eval)

text \<open>
  Neither are the HTML scanner and the Python scanner with docstring stripping
  idempotent: a removed comment can leave the two halves of a new one behind, and a
  line cut at \<open>'''\<close> can keep a \<open>"""\<close> in front of it.
\<close>

lemma strip_html_not_idempotent:
  "strip_html_comments (str ''<!-<!---->- x -->'') = str ''<!-- x -->'' \<and>
   strip_html_comments (strip_html_comments (str ''<!-<!---->- x -->'')) = []"
  by (simp add: scan_eval)

lemma strip_python_docstrings_not_idempotent:
  "strip_python_comments (triple_dquote @ str ''a'' @ triple_squote) True = triple_dquote @ str ''a'' \<and>
   strip_python_comments (strip_python_comments (triple_dquote @ str ''a'' @ triple_squote) True) True = []"
  by (simp add: scan_eval)

end
